theory Spec2Isabelle
  imports Main "HOL-Library.Multiset" "HOL-Library.Sublist"
begin

section \<open>Data model of threadPool.c\<close>

text \<open>
  The pool of \<^verbatim>\<open>threadPool.c\<close> is one heap object shared by its worker threads and by
  the threads that call \<^verbatim>\<open>tpInsertTask\<close> and \<^verbatim>\<open>tpDestroy\<close>. The model keeps the whole
  memory the program touches in one record, \<open>world\<close>: the fields of \<^verbatim>\<open>struct thread_pool\<close>,
  the task nodes on the C heap, the local state of every worker thread, the line every
  caller inside \<^verbatim>\<open>tpDestroy\<close> has reached (\<open>destroyers\<close>), the nodes that calls of
  \<^verbatim>\<open>tpInsertTask\<close> have created and not yet enqueued (\<open>inflight\<close>), and the sequence of
  library calls made so far (\<open>trace\<close>).

  Task nodes are named by the number of the \<^verbatim>\<open>malloc\<close> call that made them, so a name
  is never handed out twice even after \<^verbatim>\<open>free\<close>. Function pointers and the opaque
  \<^verbatim>\<open>void*\<close> parameter are numbers; \<open>None\<close> is the \<^verbatim>\<open>NULL\<close> function pointer.
  Messages written to \<^verbatim>\<open>stderr\<close> are not part of the model.
\<close>

type_synonym addr = nat
type_synonym fnptr = nat
type_synonym param = nat

record task_node =
  computeFunc :: "fnptr option"
  parameters :: param

text \<open>
  What the C program leaves undefined, made a result: reading through a \<^verbatim>\<open>NULL\<close> pool
  pointer, using the pool after \<^verbatim>\<open>tpFreeThreadPool\<close> released it, \<^verbatim>\<open>osDequeue\<close> on an
  empty queue, freeing a node that is not allocated, reading a node that was freed,
  calling a \<^verbatim>\<open>NULL\<close> function pointer, and reading past the end of the thread array.
\<close>

datatype error =
  NullDeref | UseAfterFree | DequeueEmpty | DoubleFree | DanglingTask | NullCall | OutOfBounds

text \<open>A pointer to the pool: \<^verbatim>\<open>NULL\<close>, or the address of the pool object of the world.\<close>

datatype pool_ptr = Null | Pool

text \<open>The library calls and shared writes a step performs, in program order.\<close>

datatype event =
    Lock | Unlock | Signal | Broadcast
  | Enq addr | Deq addr
  | Run addr fnptr param
  | Free addr
  | SetDrain bool | SetShutdown bool
  | StartThread nat | JoinThread nat | FreeHandle nat
  | DestroyQueue | FreeCond | FreeMutex | FreeArray | FreePool

text \<open>
  Where a worker thread stands in \<^verbatim>\<open>tpRoutine\<close>: before its critical section (at
  \<^verbatim>\<open>pthread_mutex_lock\<close> or blocked in \<^verbatim>\<open>pthread_cond_wait\<close>), past the unlock of line 58
  with a dequeued task in hand, or after \<^verbatim>\<open>pthread_exit\<close>.
\<close>

datatype wstate = Waiting | Executing addr | Terminated

text \<open>
  Where a caller of \<^verbatim>\<open>tpDestroy\<close> stands once it is past the guard of line 144: at
  \<^verbatim>\<open>pthread_mutex_lock\<close> (line 148) with its argument \<^verbatim>\<open>shouldWaitForTasks\<close>; in the join
  loop (line 166) with the index of the next thread to join; in the loop of
  \<^verbatim>\<open>tpFreeThreadPool\<close> that frees the queued tasks (line 258); past that loop (line 261);
  or returned.
\<close>

datatype dstate = AtLock int | AtJoin nat | AtFreeLoop | AtRelease | Gone

record world =
  taskQueue :: "addr list"
  isShuttingDown :: bool
  shouldWaitForTasks :: bool
  numOfThreads :: int
  threadArray :: "wstate list"
  destroyers :: "dstate list"
  inflight :: "addr list"
  heap :: "task_node option list"
  poolFreed :: bool
  trace :: "event list"

definition emit :: "event list \<Rightarrow> world \<Rightarrow> world" where
  "emit es w = w\<lparr>trace := trace w @ es\<rparr>"

subsection \<open>The task queue\<close>

text \<open>
  Modelled from the spec: the queue functions \<^verbatim>\<open>osCreateQueue\<close>, \<^verbatim>\<open>osIsQueueEmpty\<close>,
  \<^verbatim>\<open>osEnqueue\<close> and \<^verbatim>\<open>osDequeue\<close> are called by \<^verbatim>\<open>threadPool.c\<close> and defined
  elsewhere. The spec describes an unsynchronised FIFO sequence: enqueue pushes at the
  tail, dequeue takes the head and is undefined on an empty queue, which the model makes
  the error \<open>DequeueEmpty\<close>.
\<close>

definition osCreateQueue :: "addr list" where
  "osCreateQueue = []"

definition osIsQueueEmpty :: "addr list \<Rightarrow> bool" where
  "osIsQueueEmpty q = (q = [])"

definition osEnqueue :: "addr list \<Rightarrow> addr \<Rightarrow> addr list" where
  "osEnqueue q a = q @ [a]"

definition osDequeue :: "addr list \<Rightarrow> error + (addr \<times> addr list)" where
  "osDequeue q = (case q of [] \<Rightarrow> Inl DequeueEmpty | a # r \<Rightarrow> Inr (a, r))"

subsection \<open>Task nodes: \<^verbatim>\<open>tnCreate\<close> and \<^verbatim>\<open>free\<close>\<close>

text \<open>
  \<^verbatim>\<open>tnCreate\<close> (lines 232-245): \<open>ok\<close> says whether its \<^verbatim>\<open>malloc\<close> succeeds. The new node
  is the next cell of the heap.
\<close>

definition tnCreate :: "bool \<Rightarrow> fnptr option \<Rightarrow> param \<Rightarrow> world \<Rightarrow> addr option \<times> world" where
  "tnCreate ok f p w =
     (if \<not> ok then (None, w)
      else (Some (length (heap w)),
            w\<lparr>heap := heap w @ [Some \<lparr>computeFunc = f, parameters = p\<rparr>]\<rparr>))"

definition live :: "world \<Rightarrow> addr \<Rightarrow> bool" where
  "live w a = (a < length (heap w) \<and> heap w ! a \<noteq> None)"

definition free_node :: "addr \<Rightarrow> world \<Rightarrow> error + world" where
  "free_node a w =
     (if live w a then Inr (emit [Free a] (w\<lparr>heap := (heap w)[a := None]\<rparr>))
      else Inl DoubleFree)"

subsection \<open>The worker loop: \<^verbatim>\<open>tpRoutine\<close>\<close>

text \<open>
  What one pass of lines 29-57 decides while it holds the mutex: stay in the wait loop
  (line 29), leave the loop (the \<^verbatim>\<open>break\<close> of line 45 or of line 50), or go on to
  \<^verbatim>\<open>osDequeue\<close> (line 57). The conditions are those of the source, in its order.
\<close>

datatype verdict = Wait | Break | Pop

definition tpRoutine_decide :: "world \<Rightarrow> verdict" where
  "tpRoutine_decide w =
     (if osIsQueueEmpty (taskQueue w) \<and> \<not> isShuttingDown w then Wait
      else if isShuttingDown w \<and> shouldWaitForTasks w then
        (if osIsQueueEmpty (taskQueue w) then Break else Pop)
      else if isShuttingDown w \<and> \<not> shouldWaitForTasks w then Break
      else Pop)"

text \<open>
  One atomic step of worker \<open>i\<close>. The mutex makes lines 24-58 (and 24-67 on the way
  out) one critical section, so a waiting worker's step is the whole section; a worker
  that stays in \<^verbatim>\<open>pthread_cond_wait\<close> changes nothing. A worker holding a task runs the
  callable and frees the node (lines 61-62), outside the mutex. The pthread calls of the
  worker are taken to succeed.
\<close>

definition tpRoutine_critical :: "nat \<Rightarrow> world \<Rightarrow> error + world" where
  "tpRoutine_critical i w =
     (if poolFreed w then Inl UseAfterFree
      else case tpRoutine_decide w of
        Wait \<Rightarrow> Inr w
      | Break \<Rightarrow>
          Inr (emit [Lock, Unlock] (w\<lparr>threadArray := (threadArray w)[i := Terminated]\<rparr>))
      | Pop \<Rightarrow>
          (case osDequeue (taskQueue w) of
             Inl e \<Rightarrow> Inl e
           | Inr (task, q) \<Rightarrow>
               Inr (emit [Lock, Deq task, Unlock]
                     (w\<lparr>taskQueue := q,
                        threadArray := (threadArray w)[i := Executing task]\<rparr>))))"

definition tpRoutine_execute :: "nat \<Rightarrow> addr \<Rightarrow> world \<Rightarrow> error + world" where
  "tpRoutine_execute i task w =
     (if \<not> live w task then Inl DanglingTask
      else case heap w ! task of
        None \<Rightarrow> Inl DanglingTask
      | Some node \<Rightarrow>
          (case computeFunc node of
             None \<Rightarrow> Inl NullCall
           | Some f \<Rightarrow>
               free_node task
                 (emit [Run task f (parameters node)]
                    (w\<lparr>threadArray := (threadArray w)[i := Waiting]\<rparr>))))"

definition tpRoutine_step :: "nat \<Rightarrow> world \<Rightarrow> error + world" where
  "tpRoutine_step i w =
     (if i < length (threadArray w) then
        (case threadArray w ! i of
           Waiting \<Rightarrow> tpRoutine_critical i w
         | Executing task \<Rightarrow> tpRoutine_execute i task w
         | Terminated \<Rightarrow> Inr w)
      else Inr w)"

text \<open>
  \<^verbatim>\<open>tpRoutine\<close> itself (lines 11-71): the \<^verbatim>\<open>NULL\<close> test of lines 14-16 comes before
  anything else; otherwise the thread is in the loop and takes its next step.
\<close>

datatype routine_status = ReturnedNull | InLoop

definition tpRoutine :: "nat \<Rightarrow> pool_ptr \<Rightarrow> world \<Rightarrow> error + (routine_status \<times> world)" where
  "tpRoutine i pool w =
     (if pool = Null then Inr (ReturnedNull, w)
      else case tpRoutine_step i w of
        Inl e \<Rightarrow> Inl e
      | Inr w' \<Rightarrow> Inr (InLoop, w'))"

subsection \<open>Submitting: \<^verbatim>\<open>tpInsertTask\<close>\<close>

text \<open>
  The return codes, as the function's header comment gives them
  (\<^verbatim>\<open>@return -1 if failed, 0 if worked\<close>).
\<close>

definition TASK_INSERT_FAILURE :: int where
  "TASK_INSERT_FAILURE = - 1"

definition TASK_INSERT_SUCCESS :: int where
  "TASK_INSERT_SUCCESS = 0"

text \<open>What the system answers to one call: whether \<^verbatim>\<open>malloc\<close> succeeds, and the return
  codes of the three pthread calls.\<close>

record syscalls =
  malloc_ok :: bool
  lock_rc :: int
  signal_rc :: int
  unlock_rc :: int

text \<open>
  \<^verbatim>\<open>tpInsertTask\<close> (lines 187-224) reads \<^verbatim>\<open>isShuttingDown\<close> without holding the mutex
  and takes the mutex only later, so other threads can run in between. The model has the
  two parts and their composition.

  \<open>tpInsertTask_prepare\<close> is lines 189-200. The condition of line 190 reads
  \<^verbatim>\<open>threadPool->isShuttingDown\<close> first, so the pointer is dereferenced before it is
  compared with \<^verbatim>\<open>NULL\<close>. The part ends with a return code, or with the node that
  \<^verbatim>\<open>tnCreate\<close> made.
\<close>

datatype insert_stage = Returned int | Prepared addr

definition tpInsertTask_prepare ::
  "bool \<Rightarrow> pool_ptr \<Rightarrow> fnptr option \<Rightarrow> param \<Rightarrow> world \<Rightarrow> error + (insert_stage \<times> world)"
  where
  "tpInsertTask_prepare ok threadPool f p w =
     (if threadPool = Null then Inl NullDeref
      else if poolFreed w then Inl UseAfterFree
      else if isShuttingDown w \<or> threadPool = Null \<or> f = None then
        Inr (Returned TASK_INSERT_FAILURE, w)
      else case tnCreate ok f p w of
        (None, w1) \<Rightarrow> Inr (Returned TASK_INSERT_FAILURE, w1)
      | (Some taskNode, w1) \<Rightarrow> Inr (Prepared taskNode, w1))"

text \<open>
  \<open>tpInsertTask_enqueue\<close> is lines 202-223: lock, enqueue, signal, unlock, each pthread
  error ending the call with the failure code.
\<close>

definition tpInsertTask_enqueue :: "syscalls \<Rightarrow> addr \<Rightarrow> world \<Rightarrow> error + (int \<times> world)" where
  "tpInsertTask_enqueue sc taskNode w1 =
     (if poolFreed w1 then Inl UseAfterFree
      else if lock_rc sc \<noteq> 0 then Inr (TASK_INSERT_FAILURE, w1)
      else
        let w2 = emit [Lock, Enq taskNode]
                   (w1\<lparr>taskQueue := osEnqueue (taskQueue w1) taskNode\<rparr>)
        in if signal_rc sc \<noteq> 0 then Inr (TASK_INSERT_FAILURE, w2)
           else
             let w3 = emit [Signal] w2
             in if unlock_rc sc \<noteq> 0 then Inr (TASK_INSERT_FAILURE, w3)
                else Inr (TASK_INSERT_SUCCESS, emit [Unlock] w3))"

text \<open>The whole call, when no other thread runs between its two parts.\<close>

definition tpInsertTask ::
  "syscalls \<Rightarrow> pool_ptr \<Rightarrow> fnptr option \<Rightarrow> param \<Rightarrow> world \<Rightarrow> error + (int \<times> world)" where
  "tpInsertTask sc threadPool f p w =
     (case tpInsertTask_prepare (malloc_ok sc) threadPool f p w of
        Inl e \<Rightarrow> Inl e
      | Inr (Returned rc, w1) \<Rightarrow> Inr (rc, w1)
      | Inr (Prepared taskNode, w1) \<Rightarrow> tpInsertTask_enqueue sc taskNode w1)"

subsection \<open>Shutting down: \<^verbatim>\<open>tpDestroy\<close> and \<^verbatim>\<open>tpFreeThreadPool\<close>\<close>

text \<open>
  \<^verbatim>\<open>tpDestroy\<close> (lines 141-174) reads \<^verbatim>\<open>isShuttingDown\<close> without holding the mutex
  (line 144), takes the mutex afterwards, blocks in \<^verbatim>\<open>pthread_join\<close> while the workers
  run, and tears the pool down with no lock held. Other threads can run between these
  parts, so each is a definition of its own. The pthread calls are taken to succeed (a
  failure is only logged).

  \<open>tpDestroy_guard\<close> is the guard of lines 143-146: whether the call returns at line 145.
\<close>

definition tpDestroy_guard :: "pool_ptr \<Rightarrow> world \<Rightarrow> error + bool" where
  "tpDestroy_guard threadPool w =
     (if threadPool = Null then Inl NullDeref
      else if poolFreed w then Inl UseAfterFree
      else Inr (isShuttingDown w))"

text \<open>
  \<open>tpDestroy_shutdown\<close> is the critical section of lines 148-163: it records the drain
  flag, sets \<^verbatim>\<open>isShuttingDown\<close> and broadcasts.
\<close>

definition tpDestroy_shutdown :: "int \<Rightarrow> world \<Rightarrow> error + world" where
  "tpDestroy_shutdown shouldWait w =
     (if poolFreed w then Inl UseAfterFree
      else
        let drain = (if shouldWait = 0 then False else True)
        in Inr (emit [Lock, SetDrain drain, SetShutdown True, Broadcast, Unlock]
                  (w\<lparr>shouldWaitForTasks := drain, isShuttingDown := True\<rparr>)))"

text \<open>
  \<open>tpDestroy_enter\<close> is lines 141-163, when no other thread runs between the guard and
  the critical section. Its status says whether the call returned at line 145 or went on
  to the join loop.
\<close>

datatype destroy_status = ReturnedEarly | Joining

definition tpDestroy_enter ::
  "pool_ptr \<Rightarrow> int \<Rightarrow> world \<Rightarrow> error + (destroy_status \<times> world)" where
  "tpDestroy_enter threadPool shouldWait w =
     (case tpDestroy_guard threadPool w of
        Inl e \<Rightarrow> Inl e
      | Inr returns \<Rightarrow>
          if returns then Inr (ReturnedEarly, w)
          else (case tpDestroy_shutdown shouldWait w of
                  Inl e \<Rightarrow> Inl e
                | Inr w' \<Rightarrow> Inr (Joining, w')))"

text \<open>
  One pass of the join loop (line 168), for thread \<open>i\<close>: \<^verbatim>\<open>pthread_join\<close> returns only
  when the thread has exited; until then the caller stays blocked, which is \<open>None\<close>.
  A second \<^verbatim>\<open>pthread_join\<close> on a thread that was joined before is taken to return as well
  (the source only logs its failure).
\<close>

definition tpDestroy_join :: "nat \<Rightarrow> world \<Rightarrow> error + world option" where
  "tpDestroy_join i w =
     (if poolFreed w then Inl UseAfterFree
      else if i < length (threadArray w) then
        (if threadArray w ! i = Terminated then Inr (Some (emit [JoinThread i] w))
         else Inr None)
      else Inl OutOfBounds)"

text \<open>
  The loop of lines 258-260: while the queue is not empty, dequeue a node and free it.
\<close>

function freeTasks :: "world \<Rightarrow> error + world" where
  "freeTasks w =
     (if osIsQueueEmpty (taskQueue w) then Inr w
      else case osDequeue (taskQueue w) of
        Inl e \<Rightarrow> Inl e
      | Inr (task, q) \<Rightarrow>
          (case free_node task (emit [Deq task] (w\<lparr>taskQueue := q\<rparr>)) of
             Inl e \<Rightarrow> Inl e
           | Inr w' \<Rightarrow> freeTasks w'))"
  by pat_completeness auto
termination
proof (relation "measure (\<lambda>w. length (taskQueue w))")
  show "wf (measure (\<lambda>w. length (taskQueue w)))" by simp
next
  fix w :: world and x2 :: "addr \<times> addr list" and x y and x2a :: world
  assume "\<not> osIsQueueEmpty (taskQueue w)"
    and d: "osDequeue (taskQueue w) = Inr x2"
    and xy: "(x, y) = x2"
    and f: "free_node x (emit [Deq x] (w\<lparr>taskQueue := y\<rparr>)) = Inr x2a"
  from d xy have "taskQueue w = x # y"
    by (auto simp: osDequeue_def split: list.splits)
  moreover from f have "taskQueue x2a = y"
    by (auto simp: free_node_def emit_def split: if_splits)
  ultimately show "(x2a, w) \<in> measure (\<lambda>w. length (taskQueue w))"
    by simp
qed

declare freeTasks.simps [simp del]

text \<open>
  \<^verbatim>\<open>tpFreeThreadPool\<close> (lines 251-281). In a pool that \<^verbatim>\<open>tpCreate\<close> returned every
  thread handle is allocated, so the \<^verbatim>\<open>NULL\<close> test of line 273 passes for each.
\<close>

definition tpFreeThreadPool :: "pool_ptr \<Rightarrow> world \<Rightarrow> error + world" where
  "tpFreeThreadPool threadPool w =
     (if threadPool = Null then Inr w
      else if poolFreed w then Inl UseAfterFree
      else case freeTasks w of
        Inl e \<Rightarrow> Inl e
      | Inr w1 \<Rightarrow>
          Inr (emit ([DestroyQueue, FreeCond, FreeMutex]
                      @ map FreeHandle [0..<nat (numOfThreads w1)]
                      @ [FreeArray, FreePool])
                 (w1\<lparr>poolFreed := True\<rparr>)))"

text \<open>
  \<^verbatim>\<open>tpFreeThreadPool\<close> holds no lock, so a thread that is still inside \<^verbatim>\<open>tpInsertTask\<close>
  can run between any two of its lines. Its parts, as the running system takes them:
  \<open>freeTasks_iteration\<close> is one test of the loop condition of line 258 and, when the queue
  is not empty, one pass of the body (\<open>None\<close>: the loop has ended);
  \<open>tpFreeThreadPool_release\<close> is what follows the loop, lines 261-280.
\<close>

definition freeTasks_iteration :: "world \<Rightarrow> error + world option" where
  "freeTasks_iteration w =
     (if poolFreed w then Inl UseAfterFree
      else if osIsQueueEmpty (taskQueue w) then Inr None
      else case osDequeue (taskQueue w) of
        Inl e \<Rightarrow> Inl e
      | Inr (task, q) \<Rightarrow>
          (case free_node task (emit [Deq task] (w\<lparr>taskQueue := q\<rparr>)) of
             Inl e \<Rightarrow> Inl e
           | Inr w' \<Rightarrow> Inr (Some w')))"

definition tpFreeThreadPool_release :: "world \<Rightarrow> error + world" where
  "tpFreeThreadPool_release w =
     (if poolFreed w then Inl UseAfterFree
      else Inr (emit ([DestroyQueue, FreeCond, FreeMutex]
                       @ map FreeHandle [0..<nat (numOfThreads w)]
                       @ [FreeArray, FreePool])
                  (w\<lparr>poolFreed := True\<rparr>)))"

text \<open>
  One atomic step of the caller \<open>j\<close> of \<^verbatim>\<open>tpDestroy\<close>, from the line it has reached: the
  critical section; one \<^verbatim>\<open>pthread_join\<close>, or the end of the join loop and the call of
  \<^verbatim>\<open>tpFreeThreadPool\<close>; one pass of the loop that frees the queued tasks, or its end; the
  release of the pool, after which the call has returned.
\<close>

definition tpDestroy_step :: "nat \<Rightarrow> world \<Rightarrow> error + world" where
  "tpDestroy_step j w =
     (if j < length (destroyers w) then
        (case destroyers w ! j of
           AtLock shouldWait \<Rightarrow>
             (case tpDestroy_shutdown shouldWait w of
                Inl e \<Rightarrow> Inl e
              | Inr w' \<Rightarrow> Inr (w'\<lparr>destroyers := (destroyers w')[j := AtJoin 0]\<rparr>))
         | AtJoin i \<Rightarrow>
             (if poolFreed w then Inl UseAfterFree
              else if int i < numOfThreads w then
                (case tpDestroy_join i w of
                   Inl e \<Rightarrow> Inl e
                 | Inr None \<Rightarrow> Inr w
                 | Inr (Some w') \<Rightarrow>
                     Inr (w'\<lparr>destroyers := (destroyers w')[j := AtJoin (Suc i)]\<rparr>))
              else Inr (w\<lparr>destroyers := (destroyers w)[j := AtFreeLoop]\<rparr>))
         | AtFreeLoop \<Rightarrow>
             (case freeTasks_iteration w of
                Inl e \<Rightarrow> Inl e
              | Inr None \<Rightarrow> Inr (w\<lparr>destroyers := (destroyers w)[j := AtRelease]\<rparr>)
              | Inr (Some w') \<Rightarrow> Inr w')
         | AtRelease \<Rightarrow>
             (case tpFreeThreadPool_release w of
                Inl e \<Rightarrow> Inl e
              | Inr w' \<Rightarrow> Inr (w'\<lparr>destroyers := (destroyers w')[j := Gone]\<rparr>))
         | Gone \<Rightarrow> Inr w)
      else Inr w)"

subsection \<open>Creating the pool: \<^verbatim>\<open>tpCreate\<close>\<close>

text \<open>Which of the allocations of \<^verbatim>\<open>tpCreate\<close> succeed, in the order it makes them.\<close>

record allocs =
  pool_ok :: bool
  array_ok :: bool
  mutex_ok :: bool
  cond_ok :: bool
  queue_ok :: bool
  handle_ok :: "nat \<Rightarrow> bool"

text \<open>
  The loop of lines 125-131: thread \<open>i\<close> is started as soon as its handle is allocated.
  The result is the index whose handle could not be allocated (the \<^verbatim>\<open>return NULL\<close> of
  line 128, with threads \<open>0..i-1\<close> already started), or \<open>None\<close> when the loop ends.
\<close>

function startThreads :: "(nat \<Rightarrow> bool) \<Rightarrow> nat \<Rightarrow> nat \<Rightarrow> nat option" where
  "startThreads ok i n =
     (if i < n then (if \<not> ok i then Some i else startThreads ok (Suc i) n) else None)"
  by pat_completeness auto
termination
  by (relation "measure (\<lambda>(ok, i, n). n - i)") auto

declare startThreads.simps [simp del]

text \<open>
  What a call of \<^verbatim>\<open>tpCreate\<close> leaves behind: \<^verbatim>\<open>NULL\<close> returned, with the number of
  worker threads it had started and that keep running; or the new pool.
\<close>

datatype create_result = Failed nat | Created world

text \<open>
  \<^verbatim>\<open>tpCreate\<close> (lines 78-134). \<^verbatim>\<open>shouldWaitForTasks\<close> is not initialised; \<open>junk\<close> is
  what the fresh memory happens to hold.
\<close>

definition tpCreate :: "allocs \<Rightarrow> bool \<Rightarrow> int \<Rightarrow> create_result" where
  "tpCreate al junk n =
     (if \<not> pool_ok al then Failed 0
      else if \<not> array_ok al then Failed 0
      else if \<not> mutex_ok al then Failed 0
      else if \<not> cond_ok al then Failed 0
      else if \<not> queue_ok al then Failed 0
      else case startThreads (handle_ok al) 0 (nat n) of
        Some i \<Rightarrow> Failed i
      | None \<Rightarrow>
          Created \<lparr>taskQueue = osCreateQueue,
                   isShuttingDown = False,
                   shouldWaitForTasks = junk,
                   numOfThreads = n,
                   threadArray = replicate (nat n) Waiting,
                   destroyers = [],
                   inflight = [],
                   heap = [],
                   poolFreed = False,
                   trace = SetShutdown False # map StartThread [0..<nat n]\<rparr>)"

section \<open>The running system\<close>

text \<open>
  The threads of a program interleave. An action is one atomic step of one thread:
  \<^item> \<open>SubmitEnter f p m\<close>: a client enters \<^verbatim>\<open>tpInsertTask\<close> and runs it up to line 200
    (\<open>m\<close> is the outcome of its \<^verbatim>\<open>malloc\<close>); if it has not returned, its node is in flight;
  \<^item> \<open>SubmitFinish a\<close>: the client holding node \<open>a\<close> runs the critical section of lines
    202-223 (its pthread calls succeed);
  \<^item> \<open>DestroyCall d\<close>: a client enters \<^verbatim>\<open>tpDestroy\<close> with the argument \<open>d\<close> and evaluates
    the guard of line 144; if it has not returned, it is a new entry of \<open>destroyers\<close>,
    about to take the mutex. Any number of callers can be past the guard;
  \<^item> \<open>DestroyStep j\<close>: the next step of the caller \<open>j\<close> of \<^verbatim>\<open>tpDestroy\<close>;
  \<^item> \<open>Work i\<close>: the next step of worker \<open>i\<close>.

  A critical section is one step, because the mutex lets no other section run inside it.
  The code that runs without the mutex is cut wherever it reads or writes the pool, and
  each access of the queue is one step.

  A step that cannot proceed (a worker waiting on the condition, a caller blocked in
  \<^verbatim>\<open>pthread_join\<close>, a caller that has returned, \<open>SubmitFinish\<close> of a node that is not in
  flight) leaves the world as it is.
\<close>

datatype action =
    SubmitEnter "fnptr option" param bool | SubmitFinish addr
  | DestroyCall int | DestroyStep nat
  | Work nat

definition all_ok :: "bool \<Rightarrow> syscalls" where
  "all_ok m = \<lparr>malloc_ok = m, lock_rc = 0, signal_rc = 0, unlock_rc = 0\<rparr>"

fun step :: "action \<Rightarrow> world \<Rightarrow> error + world" where
  "step (SubmitEnter f p m) w =
     (case tpInsertTask_prepare m Pool f p w of
        Inl e \<Rightarrow> Inl e
      | Inr (Returned rc, w') \<Rightarrow> Inr w'
      | Inr (Prepared taskNode, w') \<Rightarrow> Inr (w'\<lparr>inflight := inflight w' @ [taskNode]\<rparr>))"
| "step (SubmitFinish a) w =
     (if a \<in> set (inflight w) then
        (case tpInsertTask_enqueue (all_ok True) a w of
           Inl e \<Rightarrow> Inl e
         | Inr (rc, w') \<Rightarrow> Inr (w'\<lparr>inflight := remove1 a (inflight w')\<rparr>))
      else Inr w)"
| "step (DestroyCall d) w =
     (case tpDestroy_guard Pool w of
        Inl e \<Rightarrow> Inl e
      | Inr returns \<Rightarrow>
          if returns then Inr w
          else Inr (w\<lparr>destroyers := destroyers w @ [AtLock d]\<rparr>))"
| "step (DestroyStep j) w = tpDestroy_step j w"
| "step (Work i) w = tpRoutine_step i w"

fun run :: "action list \<Rightarrow> world \<Rightarrow> error + world" where
  "run [] w = Inr w"
| "run (a # as) w = (case step a w of Inl e \<Rightarrow> Inl e | Inr w' \<Rightarrow> run as w')"

subsection \<open>Reading the trace\<close>

text \<open>
  The nodes that were enqueued, dequeued, executed and freed so far, each list in the
  order the calls were made; the writes of the two shutdown fields; and the nodes the
  workers hold between \<^verbatim>\<open>osDequeue\<close> and \<^verbatim>\<open>free\<close>.
\<close>

fun enq_of :: "event \<Rightarrow> addr list" where
  "enq_of (Enq a) = [a]"
| "enq_of _ = []"

fun deq_of :: "event \<Rightarrow> addr list" where
  "deq_of (Deq a) = [a]"
| "deq_of _ = []"

fun run_of :: "event \<Rightarrow> addr list" where
  "run_of (Run a f p) = [a]"
| "run_of _ = []"

fun free_of :: "event \<Rightarrow> addr list" where
  "free_of (Free a) = [a]"
| "free_of _ = []"

fun is_flag_write :: "event \<Rightarrow> bool" where
  "is_flag_write (SetDrain b) = True"
| "is_flag_write (SetShutdown b) = True"
| "is_flag_write _ = False"

fun task_of :: "wstate \<Rightarrow> addr list" where
  "task_of (Executing a) = [a]"
| "task_of _ = []"

definition enqueued :: "event list \<Rightarrow> addr list" where
  "enqueued t = concat (map enq_of t)"

definition dequeued :: "event list \<Rightarrow> addr list" where
  "dequeued t = concat (map deq_of t)"

definition executed :: "event list \<Rightarrow> addr list" where
  "executed t = concat (map run_of t)"

definition freed :: "event list \<Rightarrow> addr list" where
  "freed t = concat (map free_of t)"

definition flag_writes :: "event list \<Rightarrow> event list" where
  "flag_writes t = filter is_flag_write t"

definition held :: "world \<Rightarrow> addr list" where
  "held w = concat (map task_of (threadArray w))"

subsection \<open>The invariant of a running pool\<close>

text \<open>
  What holds of every world a created pool can reach, whatever the interleaving. Every
  node allocated is in flight or has been enqueued, never both and never twice; the queue
  is what has been enqueued and not yet dequeued; a dequeued node is either held by
  exactly one worker or freed; the freed cells of the heap are the freed nodes; every
  allocated node carries a callable; the nodes executed are among the nodes freed, in the
  same order; and the thread array has \<^verbatim>\<open>numOfThreads\<close> entries.
\<close>

definition pool_inv :: "world \<Rightarrow> bool" where
  "pool_inv w =
     (mset (enqueued (trace w)) + mset (inflight w) = mset [0..<length (heap w)]
      \<and> dequeued (trace w) @ taskQueue w = enqueued (trace w)
      \<and> mset (freed (trace w)) + mset (held w) = mset (dequeued (trace w))
      \<and> (\<forall>a<length (heap w). (heap w ! a = None) = (a \<in> set (freed (trace w))))
      \<and> (\<forall>a<length (heap w). \<forall>node. heap w ! a = Some node \<longrightarrow> computeFunc node \<noteq> None)
      \<and> subseq (executed (trace w)) (freed (trace w))
      \<and> length (threadArray w) = nat (numOfThreads w))"

text \<open>
  The two shutdown fields are written by \<^verbatim>\<open>tpCreate\<close> (line 122) and by the critical
  section of \<^verbatim>\<open>tpDestroy\<close> (lines 153-154) only: the writes found in the trace are the
  initial one and one pair for each critical section that ran, the fields holding what
  the last of them wrote.
\<close>

definition shutdown_pairs :: "bool list \<Rightarrow> event list" where
  "shutdown_pairs bs = concat (map (\<lambda>b. [SetDrain b, SetShutdown True]) bs)"

fun past_lock :: "dstate \<Rightarrow> bool" where
  "past_lock (AtLock d) = False"
| "past_lock _ = True"

definition flag_inv :: "world \<Rightarrow> bool" where
  "flag_inv w =
     (\<exists>bs. flag_writes (trace w) = SetShutdown False # shutdown_pairs bs
        \<and> isShuttingDown w = (bs \<noteq> [])
        \<and> (bs \<noteq> [] \<longrightarrow> shouldWaitForTasks w = last bs)
        \<and> length bs = length (filter past_lock (destroyers w)))"

text \<open>
  A caller of \<^verbatim>\<open>tpDestroy\<close> has joined the threads before its place in the join loop, and
  all of them once it is past the loop; and a pool is released only by a caller that has
  then returned.
\<close>

fun joins_done :: "dstate \<Rightarrow> nat \<Rightarrow> bool" where
  "joins_done (AtLock d) i = False"
| "joins_done (AtJoin k) i = (i < k)"
| "joins_done _ i = True"

definition join_inv :: "world \<Rightarrow> bool" where
  "join_inv w =
     ((\<forall>s\<in>set (destroyers w). \<forall>i<length (threadArray w).
          joins_done s i \<longrightarrow> threadArray w ! i = Terminated)
      \<and> (poolFreed w \<longrightarrow> Gone \<in> set (destroyers w)))"

text \<open>
  Two situations that last once they are reached. In the first the pool is shutting
  down, no submit is in flight, and a caller of \<^verbatim>\<open>tpDestroy\<close> that has left the loop of
  lines 258-260 left the queue empty: nothing is enqueued any more. In the second the pool
  is shutting down without drain and no caller of \<^verbatim>\<open>tpDestroy\<close> is past the guard and
  still before its critical section: the drain flag stays false.
\<close>

fun past_loop :: "dstate \<Rightarrow> bool" where
  "past_loop AtRelease = True"
| "past_loop Gone = True"
| "past_loop _ = False"

definition quiet_inv :: "world \<Rightarrow> bool" where
  "quiet_inv w =
     (isShuttingDown w \<and> inflight w = []
      \<and> ((\<exists>s\<in>set (destroyers w). past_loop s) \<longrightarrow> taskQueue w = []))"

definition nodrain_inv :: "world \<Rightarrow> bool" where
  "nodrain_inv w =
     (isShuttingDown w \<and> \<not> shouldWaitForTasks w
      \<and> (\<forall>s\<in>set (destroyers w). past_lock s))"

section \<open>Properties of the single operations\<close>

subsection \<open>The worker routine\<close>

text \<open>
  C10. Given a \<^verbatim>\<open>NULL\<close> pool argument, the worker routine returns \<^verbatim>\<open>NULL\<close> at once:
  it takes no lock, touches no queue and leaves the whole world, trace included, as it
  was.
\<close>

theorem tpRoutine_null_returns:
  "tpRoutine i Null w = Inr (ReturnedNull, w)"
  by (simp add: tpRoutine_def)

text \<open>
  C2. A waiting worker whose wait loop has exited (the queue is not empty or the pool is
  shutting down) applies the shutdown policy: shutting down with drain and an empty
  queue, it unlocks and terminates; shutting down without drain, it unlocks and
  terminates and the queue keeps its tasks; in every other case the queue is not empty,
  the worker takes its head, unlocks, and its next step calls the node's function on the
  node's parameter and frees the node.
\<close>

theorem tpRoutine_shutdown_policy:
  assumes "i < length (threadArray w)" and "threadArray w ! i = Waiting"
    and "\<not> poolFreed w"
    and "\<not> (osIsQueueEmpty (taskQueue w) \<and> \<not> isShuttingDown w)"
  shows "tpRoutine_step i w =
     (if isShuttingDown w \<and> shouldWaitForTasks w \<and> osIsQueueEmpty (taskQueue w) then
        Inr (emit [Lock, Unlock] (w\<lparr>threadArray := (threadArray w)[i := Terminated]\<rparr>))
      else if isShuttingDown w \<and> \<not> shouldWaitForTasks w then
        Inr (emit [Lock, Unlock] (w\<lparr>threadArray := (threadArray w)[i := Terminated]\<rparr>))
      else
        Inr (emit [Lock, Deq (hd (taskQueue w)), Unlock]
              (w\<lparr>taskQueue := tl (taskQueue w),
                 threadArray := (threadArray w)[i := Executing (hd (taskQueue w))]\<rparr>)))
   \<and> (\<not> (isShuttingDown w \<and> shouldWaitForTasks w \<and> osIsQueueEmpty (taskQueue w))
        \<and> \<not> (isShuttingDown w \<and> \<not> shouldWaitForTasks w)
      \<longrightarrow> taskQueue w \<noteq> []
        \<and> (\<forall>node f. live w (hd (taskQueue w)) \<and> heap w ! hd (taskQueue w) = Some node
               \<and> computeFunc node = Some f \<longrightarrow>
             tpRoutine_step i
               (emit [Lock, Deq (hd (taskQueue w)), Unlock]
                 (w\<lparr>taskQueue := tl (taskQueue w),
                    threadArray := (threadArray w)[i := Executing (hd (taskQueue w))]\<rparr>))
             = Inr (emit [Lock, Deq (hd (taskQueue w)), Unlock,
                          Run (hd (taskQueue w)) f (parameters node), Free (hd (taskQueue w))]
                 (w\<lparr>taskQueue := tl (taskQueue w),
                    threadArray := (threadArray w)[i := Waiting],
                    heap := (heap w)[hd (taskQueue w) := None]\<rparr>))))"
  using assms
  by (auto simp: tpRoutine_step_def tpRoutine_critical_def tpRoutine_decide_def
      tpRoutine_execute_def free_node_def live_def
      osIsQueueEmpty_def osDequeue_def emit_def split: list.splits)

text \<open>
  The three branches at concrete pools with one worker: drain with an empty queue,
  no drain with a task queued, and a live pool with a task queued, followed by the
  execution of that task.
\<close>

theorem tpRoutine_shutdown_policy_witness:
  "tpRoutine_step 0
     \<lparr>taskQueue = [], isShuttingDown = True, shouldWaitForTasks = True, numOfThreads = 1,
      threadArray = [Waiting], destroyers = [], inflight = [],
      heap = [], poolFreed = False, trace = []\<rparr>
   = Inr \<lparr>taskQueue = [], isShuttingDown = True, shouldWaitForTasks = True, numOfThreads = 1,
      threadArray = [Terminated], destroyers = [], inflight = [],
      heap = [], poolFreed = False, trace = [Lock, Unlock]\<rparr>
   \<and> tpRoutine_step 0
     \<lparr>taskQueue = [0], isShuttingDown = True, shouldWaitForTasks = False, numOfThreads = 1,
      threadArray = [Waiting], destroyers = [], inflight = [],
      heap = [Some \<lparr>computeFunc = Some 7, parameters = 3\<rparr>],
      poolFreed = False, trace = []\<rparr>
   = Inr \<lparr>taskQueue = [0], isShuttingDown = True, shouldWaitForTasks = False, numOfThreads = 1,
      threadArray = [Terminated], destroyers = [], inflight = [],
      heap = [Some \<lparr>computeFunc = Some 7, parameters = 3\<rparr>],
      poolFreed = False, trace = [Lock, Unlock]\<rparr>
   \<and> tpRoutine_step 0
     \<lparr>taskQueue = [0], isShuttingDown = False, shouldWaitForTasks = False, numOfThreads = 1,
      threadArray = [Waiting], destroyers = [], inflight = [],
      heap = [Some \<lparr>computeFunc = Some 7, parameters = 3\<rparr>],
      poolFreed = False, trace = []\<rparr>
   = Inr \<lparr>taskQueue = [], isShuttingDown = False, shouldWaitForTasks = False, numOfThreads = 1,
      threadArray = [Executing 0], destroyers = [], inflight = [],
      heap = [Some \<lparr>computeFunc = Some 7, parameters = 3\<rparr>],
      poolFreed = False, trace = [Lock, Deq 0, Unlock]\<rparr>
   \<and> tpRoutine_step 0
     \<lparr>taskQueue = [], isShuttingDown = False, shouldWaitForTasks = False, numOfThreads = 1,
      threadArray = [Executing 0], destroyers = [], inflight = [],
      heap = [Some \<lparr>computeFunc = Some 7, parameters = 3\<rparr>],
      poolFreed = False, trace = [Lock, Deq 0, Unlock]\<rparr>
   = Inr \<lparr>taskQueue = [], isShuttingDown = False, shouldWaitForTasks = False, numOfThreads = 1,
      threadArray = [Waiting], destroyers = [], inflight = [], heap = [None],
      poolFreed = False, trace = [Lock, Deq 0, Unlock, Run 0 7 3, Free 0]\<rparr>"
  using tpRoutine_shutdown_policy [of 0
      "\<lparr>taskQueue = [], isShuttingDown = True, shouldWaitForTasks = True, numOfThreads = 1,
        threadArray = [Waiting], destroyers = [], inflight = [],
        heap = [], poolFreed = False, trace = []\<rparr>"]
    tpRoutine_shutdown_policy [of 0
      "\<lparr>taskQueue = [0], isShuttingDown = True, shouldWaitForTasks = False, numOfThreads = 1,
        threadArray = [Waiting], destroyers = [], inflight = [],
        heap = [Some \<lparr>computeFunc = Some 7, parameters = 3\<rparr>],
        poolFreed = False, trace = []\<rparr>"]
    tpRoutine_shutdown_policy [of 0
      "\<lparr>taskQueue = [0], isShuttingDown = False, shouldWaitForTasks = False, numOfThreads = 1,
        threadArray = [Waiting], destroyers = [], inflight = [],
        heap = [Some \<lparr>computeFunc = Some 7, parameters = 3\<rparr>],
        poolFreed = False, trace = []\<rparr>"]
  by (simp add: osIsQueueEmpty_def emit_def live_def)




subsection \<open>Submitting\<close>

text \<open>
  C6. \<^verbatim>\<open>tpInsertTask\<close> called with a \<^verbatim>\<open>NULL\<close> pool does not return the failure code:
  line 190 reads \<^verbatim>\<open>threadPool->isShuttingDown\<close> before it compares the pointer with
  \<^verbatim>\<open>NULL\<close>, so the call dereferences the null pointer.
\<close>

theorem tpInsertTask_null_pool_crashes:
  "tpInsertTask sc Null f p w = Inl NullDeref"
  by (simp add: tpInsertTask_def tpInsertTask_prepare_def)

text \<open>The other two rejections of line 190 do return the failure code.\<close>

lemma tpInsertTask_rejects:
  assumes "\<not> poolFreed w" and "isShuttingDown w \<or> f = None"
  shows "tpInsertTask sc Pool f p w = Inr (TASK_INSERT_FAILURE, w)"
  using assms by (auto simp: tpInsertTask_def tpInsertTask_prepare_def)

text \<open>
  C3, as stated, fails: when \<^verbatim>\<open>pthread_cond_signal\<close> reports an error (line 212),
  \<^verbatim>\<open>tpInsertTask\<close> returns the failure code after the task has been enqueued.
\<close>

theorem tpInsertTask_failure_after_enqueue:
  "tpInsertTask \<lparr>malloc_ok = True, lock_rc = 0, signal_rc = 1, unlock_rc = 0\<rparr> Pool (Some 7) 3
     \<lparr>taskQueue = [], isShuttingDown = False, shouldWaitForTasks = False, numOfThreads = 1,
      threadArray = [Waiting], destroyers = [], inflight = [],
      heap = [], poolFreed = False, trace = []\<rparr>
   = Inr (TASK_INSERT_FAILURE,
     \<lparr>taskQueue = [0], isShuttingDown = False, shouldWaitForTasks = False, numOfThreads = 1,
      threadArray = [Waiting], destroyers = [], inflight = [],
      heap = [Some \<lparr>computeFunc = Some 7, parameters = 3\<rparr>],
      poolFreed = False, trace = [Lock, Enq 0]\<rparr>)"
  by (simp add: tpInsertTask_def tpInsertTask_prepare_def tpInsertTask_enqueue_def
      tnCreate_def osEnqueue_def emit_def)

text \<open>
  C3, amended. When \<^verbatim>\<open>tpInsertTask\<close> returns the failure code because the pool is
  shutting down, the callable is \<^verbatim>\<open>NULL\<close>, the task node cannot be allocated or the
  mutex cannot be locked, no task is enqueued and no worker is signalled: nothing but the
  heap differs afterwards (queue, flags, threads and trace are the same), and in the
  first three cases the world is unchanged altogether.
\<close>

theorem tpInsertTask_rejection_leaves_pool:
  assumes "tpInsertTask sc threadPool f p w = Inr (TASK_INSERT_FAILURE, w')"
    and "isShuttingDown w \<or> f = None \<or> \<not> malloc_ok sc \<or> lock_rc sc \<noteq> 0"
  shows "w'\<lparr>heap := heap w\<rparr> = w
         \<and> (isShuttingDown w \<or> f = None \<or> \<not> malloc_ok sc \<longrightarrow> w' = w)"
  using assms
  by (auto simp: tpInsertTask_def tpInsertTask_prepare_def tpInsertTask_enqueue_def
      tnCreate_def split: if_splits)

text \<open>A call whose \<^verbatim>\<open>malloc\<close> fails, and a call whose \<^verbatim>\<open>pthread_mutex_lock\<close> fails.\<close>

theorem tpInsertTask_rejection_leaves_pool_witness:
  "tpInsertTask \<lparr>malloc_ok = False, lock_rc = 0, signal_rc = 0, unlock_rc = 0\<rparr> Pool (Some 7) 3
     \<lparr>taskQueue = [], isShuttingDown = False, shouldWaitForTasks = False, numOfThreads = 1,
      threadArray = [Waiting], destroyers = [], inflight = [],
      heap = [], poolFreed = False, trace = []\<rparr>
   = Inr (TASK_INSERT_FAILURE,
     \<lparr>taskQueue = [], isShuttingDown = False, shouldWaitForTasks = False, numOfThreads = 1,
      threadArray = [Waiting], destroyers = [], inflight = [],
      heap = [], poolFreed = False, trace = []\<rparr>)
   \<and> tpInsertTask \<lparr>malloc_ok = True, lock_rc = 1, signal_rc = 0, unlock_rc = 0\<rparr> Pool (Some 7) 3
     \<lparr>taskQueue = [], isShuttingDown = False, shouldWaitForTasks = False, numOfThreads = 1,
      threadArray = [Waiting], destroyers = [], inflight = [],
      heap = [], poolFreed = False, trace = []\<rparr>
   = Inr (TASK_INSERT_FAILURE,
     \<lparr>taskQueue = [], isShuttingDown = False, shouldWaitForTasks = False, numOfThreads = 1,
      threadArray = [Waiting], destroyers = [], inflight = [],
      heap = [Some \<lparr>computeFunc = Some 7, parameters = 3\<rparr>],
      poolFreed = False, trace = []\<rparr>)
   \<and> \<lparr>taskQueue = [], isShuttingDown = False, shouldWaitForTasks = False, numOfThreads = 1,
      threadArray = [Waiting], destroyers = [], inflight = [],
      heap = [Some \<lparr>computeFunc = Some 7, parameters = 3\<rparr>],
      poolFreed = False, trace = []\<rparr>\<lparr>heap := []\<rparr>
   = \<lparr>taskQueue = [], isShuttingDown = False, shouldWaitForTasks = False, numOfThreads = 1,
      threadArray = [Waiting], destroyers = [], inflight = [],
      heap = [], poolFreed = False, trace = []\<rparr>"
  (is "?r1 \<and> ?r2 \<and> ?concl")
proof -
  have r1: ?r1
    by (simp add: tpInsertTask_def tpInsertTask_prepare_def tnCreate_def)
  have r2: ?r2
    by (simp add: tpInsertTask_def tpInsertTask_prepare_def tpInsertTask_enqueue_def
        tnCreate_def)
  from tpInsertTask_rejection_leaves_pool [OF r1] tpInsertTask_rejection_leaves_pool [OF r2]
  have ?concl by simp
  with r1 r2 show ?thesis by blast
qed

subsection \<open>Creating and destroying\<close>

text \<open>
  C4. A failed \<^verbatim>\<open>tpCreate\<close> can leave a worker running: asked for two threads, with
  the allocation of the second thread handle failing, it returns \<^verbatim>\<open>NULL\<close> from line 128
  after \<^verbatim>\<open>pthread_create\<close> has started thread 0.
\<close>

theorem tpCreate_failure_leaves_worker_running:
  "tpCreate \<lparr>pool_ok = True, array_ok = True, mutex_ok = True, cond_ok = True,
             queue_ok = True, handle_ok = (\<lambda>i. i \<noteq> 1)\<rparr> junk 2 = Failed 1"
  by (simp add: tpCreate_def startThreads.simps)

lemma startThreads_first_failure:
  assumes "i \<le> k" and "k < n" and "\<forall>j. i \<le> j \<and> j < k \<longrightarrow> ok j" and "\<not> ok k"
  shows "startThreads ok i n = Some k"
  using assms
proof (induction ok i n rule: startThreads.induct)
  case (1 ok i n)
  show ?case
  proof (cases "i = k")
    case True
    with "1.prems" show ?thesis by (subst startThreads.simps) simp
  next
    case False
    with "1.prems" have lt: "i < k" and oki: "ok i" by auto
    with "1.prems" have "startThreads ok (Suc i) n = Some k"
      by (intro "1.IH") auto
    with lt oki "1.prems" show ?thesis by (subst startThreads.simps) simp
  qed
qed

text \<open>
  In general: when the handle of thread \<open>k\<close> is the first allocation to fail,
  \<^verbatim>\<open>tpCreate\<close> returns \<^verbatim>\<open>NULL\<close> with the \<open>k\<close> threads before it started.
\<close>

lemma tpCreate_leaves_workers_running:
  assumes "pool_ok al" "array_ok al" "mutex_ok al" "cond_ok al" "queue_ok al"
    and "k < nat n" and "\<forall>j<k. handle_ok al j" and "\<not> handle_ok al k"
  shows "tpCreate al junk n = Failed k"
proof -
  from assms(6-8) have "startThreads (handle_ok al) 0 (nat n) = Some k"
    by (intro startThreads_first_failure) auto
  with assms(1-5) show ?thesis by (simp add: tpCreate_def)
qed

text \<open>A pool is returned only when every allocation succeeded.\<close>

lemma startThreads_all_ok:
  "startThreads ok i n = None \<Longrightarrow> i \<le> j \<Longrightarrow> j < n \<Longrightarrow> ok j"
proof (induction ok i n rule: startThreads.induct)
  case (1 ok i n)
  from "1.prems"(1) have a: "i < n \<longrightarrow> ok i \<and> startThreads ok (Suc i) n = None"
    by (subst (asm) startThreads.simps) (auto split: if_splits)
  show ?case
  proof (cases "i = j")
    case True
    with a "1.prems" show ?thesis by simp
  next
    case False
    with "1.prems" have "Suc i \<le> j" "i < n" by auto
    with a "1.IH" "1.prems" show ?thesis by auto
  qed
qed

lemma tpCreate_success_needs_all:
  assumes "tpCreate al junk n = Created w"
  shows "pool_ok al \<and> array_ok al \<and> mutex_ok al \<and> cond_ok al \<and> queue_ok al
         \<and> (\<forall>j<nat n. handle_ok al j)"
proof -
  from assms have "startThreads (handle_ok al) 0 (nat n) = None"
    and "pool_ok al \<and> array_ok al \<and> mutex_ok al \<and> cond_ok al \<and> queue_ok al"
    by (auto simp: tpCreate_def split: if_splits option.splits)
  with startThreads_all_ok [of "handle_ok al" 0 "nat n"] show ?thesis by auto
qed

text \<open>
  C5, as stated, fails for a pool whose first \<^verbatim>\<open>tpDestroy\<close> has run to its end: the pool
  object is freed by then, and a further call reads \<^verbatim>\<open>isShuttingDown\<close> from freed
  memory. One worker, a destroy that completes (its guard, its critical section, the
  worker leaving, the join, the end of the join loop, the end of the loop that frees the
  queue, the release), and a second destroy after it:
\<close>

theorem tpDestroy_after_completed_destroy:
  "run [DestroyCall 1, DestroyStep 0, Work 0, DestroyStep 0, DestroyStep 0, DestroyStep 0,
        DestroyStep 0]
     \<lparr>taskQueue = [], isShuttingDown = False, shouldWaitForTasks = False, numOfThreads = 1,
      threadArray = [Waiting], destroyers = [], inflight = [], heap = [],
      poolFreed = False,
      trace = [SetShutdown False, StartThread 0]\<rparr>
   = Inr \<lparr>taskQueue = [], isShuttingDown = True, shouldWaitForTasks = True, numOfThreads = 1,
      threadArray = [Terminated], destroyers = [Gone], inflight = [], heap = [],
      poolFreed = True,
      trace = [SetShutdown False, StartThread 0,
               Lock, SetDrain True, SetShutdown True, Broadcast, Unlock,
               Lock, Unlock, JoinThread 0,
               DestroyQueue, FreeCond, FreeMutex, FreeHandle 0, FreeArray, FreePool]\<rparr>
   \<and> tpDestroy_enter Pool 1
     \<lparr>taskQueue = [], isShuttingDown = True, shouldWaitForTasks = True, numOfThreads = 1,
      threadArray = [Terminated], destroyers = [Gone], inflight = [], heap = [],
      poolFreed = True,
      trace = [SetShutdown False, StartThread 0,
               Lock, SetDrain True, SetShutdown True, Broadcast, Unlock,
               Lock, Unlock, JoinThread 0,
               DestroyQueue, FreeCond, FreeMutex, FreeHandle 0, FreeArray, FreePool]\<rparr>
   = Inl UseAfterFree"
  by (simp add: tpDestroy_enter_def tpDestroy_guard_def tpDestroy_shutdown_def
      tpDestroy_step_def tpDestroy_join_def freeTasks_iteration_def
      tpFreeThreadPool_release_def tpRoutine_step_def tpRoutine_critical_def
      tpRoutine_decide_def osIsQueueEmpty_def emit_def)

text \<open>
  C5, amended. On a pool whose \<^verbatim>\<open>isShuttingDown\<close> flag is set and which has not been
  freed yet (the first \<^verbatim>\<open>tpDestroy\<close> is still joining its workers), \<^verbatim>\<open>tpDestroy\<close>
  returns at line 145: it never reaches the join loop or \<^verbatim>\<open>tpFreeThreadPool\<close>, and the
  world, trace included, is as before.
\<close>

theorem tpDestroy_again_is_noop:
  assumes "\<not> poolFreed w" and "isShuttingDown w"
  shows "tpDestroy_enter Pool d w = Inr (ReturnedEarly, w) \<and> step (DestroyCall d) w = Inr w"
  using assms by (simp add: tpDestroy_enter_def tpDestroy_guard_def)

text \<open>A second call while the worker of the first is still executing a task.\<close>

theorem tpDestroy_again_is_noop_witness:
  "tpDestroy_enter Pool 1
     \<lparr>taskQueue = [], isShuttingDown = True, shouldWaitForTasks = False, numOfThreads = 1,
      threadArray = [Executing 0], destroyers = [AtJoin 0], inflight = [],
      heap = [Some \<lparr>computeFunc = Some 7, parameters = 3\<rparr>], poolFreed = False,
      trace = [SetShutdown False, StartThread 0, Lock, Enq 0, Signal, Unlock,
               Lock, Deq 0, Unlock,
               Lock, SetDrain False, SetShutdown True, Broadcast, Unlock]\<rparr>
   = Inr (ReturnedEarly,
     \<lparr>taskQueue = [], isShuttingDown = True, shouldWaitForTasks = False, numOfThreads = 1,
      threadArray = [Executing 0], destroyers = [AtJoin 0], inflight = [],
      heap = [Some \<lparr>computeFunc = Some 7, parameters = 3\<rparr>], poolFreed = False,
      trace = [SetShutdown False, StartThread 0, Lock, Enq 0, Signal, Unlock,
               Lock, Deq 0, Unlock,
               Lock, SetDrain False, SetShutdown True, Broadcast, Unlock]\<rparr>)"
  using tpDestroy_again_is_noop [of
      "\<lparr>taskQueue = [], isShuttingDown = True, shouldWaitForTasks = False, numOfThreads = 1,
        threadArray = [Executing 0], destroyers = [AtJoin 0], inflight = [],
        heap = [Some \<lparr>computeFunc = Some 7, parameters = 3\<rparr>], poolFreed = False,
        trace = [SetShutdown False, StartThread 0, Lock, Enq 0, Signal, Unlock,
                 Lock, Deq 0, Unlock,
                 Lock, SetDrain False, SetShutdown True, Broadcast, Unlock]\<rparr>" 1]
  by simp

section \<open>Properties of the running system\<close>

subsection \<open>The parts of \<^verbatim>\<open>tpFreeThreadPool\<close> make up the whole\<close>

text \<open>
  The loop of lines 258-260 is its passes one after the other, and \<^verbatim>\<open>tpFreeThreadPool\<close>
  is the loop followed by the release, when no other thread runs in between.
\<close>

lemma freeTasks_by_iteration:
  assumes "\<not> poolFreed w"
  shows "freeTasks w =
     (case freeTasks_iteration w of
        Inl e \<Rightarrow> Inl e
      | Inr None \<Rightarrow> Inr w
      | Inr (Some w') \<Rightarrow> freeTasks w')"
  using assms
  by (subst freeTasks.simps) (simp add: freeTasks_iteration_def split: sum.splits prod.splits)

lemma clear_length [simp]: "length (fold (\<lambda>a h. h[a := None]) q h) = length h"
  by (induction q arbitrary: h) simp_all

lemma freeTasks_effect:
  assumes "freeTasks w = Inr w'"
  shows "taskQueue w' = []
    \<and> trace w' = trace w @ concat (map (\<lambda>a. [Deq a, Free a]) (taskQueue w))
    \<and> heap w' = fold (\<lambda>a h. h[a := None]) (taskQueue w) (heap w)
    \<and> isShuttingDown w' = isShuttingDown w
    \<and> shouldWaitForTasks w' = shouldWaitForTasks w
    \<and> numOfThreads w' = numOfThreads w
    \<and> threadArray w' = threadArray w
    \<and> destroyers w' = destroyers w
    \<and> inflight w' = inflight w
    \<and> poolFreed w' = poolFreed w"
  using assms
proof (induction w rule: freeTasks.induct)
  case (1 w)
  show ?case
  proof (cases "taskQueue w")
    case Nil
    with "1.prems" show ?thesis
      by (subst (asm) freeTasks.simps) (simp add: osIsQueueEmpty_def)
  next
    case (Cons a q)
    with "1.prems" obtain w1
      where f: "free_node a (emit [Deq a] (w\<lparr>taskQueue := q\<rparr>)) = Inr w1"
        and r: "freeTasks w1 = Inr w'"
      by (subst (asm) freeTasks.simps)
        (auto simp: osIsQueueEmpty_def osDequeue_def split: sum.splits)
    from f have w1: "w1 = w\<lparr>taskQueue := q, heap := (heap w)[a := None],
                            trace := trace w @ [Deq a, Free a]\<rparr>"
      by (auto simp: free_node_def emit_def split: if_splits)
    from Cons f r "1.IH" [of "(a, q)" a q w1]
    have "taskQueue w' = []
      \<and> trace w' = trace w1 @ concat (map (\<lambda>a. [Deq a, Free a]) (taskQueue w1))
      \<and> heap w' = fold (\<lambda>a h. h[a := None]) (taskQueue w1) (heap w1)
      \<and> isShuttingDown w' = isShuttingDown w1
      \<and> shouldWaitForTasks w' = shouldWaitForTasks w1
      \<and> numOfThreads w' = numOfThreads w1
      \<and> threadArray w' = threadArray w1
      \<and> destroyers w' = destroyers w1
      \<and> inflight w' = inflight w1
      \<and> poolFreed w' = poolFreed w1"
      by (simp add: osIsQueueEmpty_def osDequeue_def)
    with w1 Cons show ?thesis by simp
  qed
qed

lemma tpFreeThreadPool_by_parts:
  "tpFreeThreadPool Pool w =
     (if poolFreed w then Inl UseAfterFree
      else case freeTasks w of
        Inl e \<Rightarrow> Inl e
      | Inr w1 \<Rightarrow> tpFreeThreadPool_release w1)"
proof (cases "freeTasks w")
  case (Inl e)
  then show ?thesis by (simp add: tpFreeThreadPool_def)
next
  case (Inr w1)
  from freeTasks_effect [OF Inr] have "poolFreed w1 = poolFreed w" by simp
  with Inr show ?thesis
    by (simp add: tpFreeThreadPool_def tpFreeThreadPool_release_def)
qed

subsection \<open>What each step does\<close>

lemma proj_append [simp]:
  "enqueued (s @ t) = enqueued s @ enqueued t"
  "dequeued (s @ t) = dequeued s @ dequeued t"
  "executed (s @ t) = executed s @ executed t"
  "freed (s @ t) = freed s @ freed t"
  "flag_writes (s @ t) = flag_writes s @ flag_writes t"
  by (simp_all add: enqueued_def dequeued_def executed_def freed_def flag_writes_def)

lemma proj_Nil [simp]:
  "enqueued [] = []" "dequeued [] = []" "executed [] = []" "freed [] = []" "flag_writes [] = []"
  by (simp_all add: enqueued_def dequeued_def executed_def freed_def flag_writes_def)

lemma proj_Cons [simp]:
  "enqueued (e # t) = enq_of e @ enqueued t"
  "dequeued (e # t) = deq_of e @ dequeued t"
  "executed (e # t) = run_of e @ executed t"
  "freed (e # t) = free_of e @ freed t"
  "flag_writes (e # t) = (if is_flag_write e then e # flag_writes t else flag_writes t)"
  by (simp_all add: enqueued_def dequeued_def executed_def freed_def flag_writes_def)

lemma submit_enter_effect:
  assumes "step (SubmitEnter f p m) w = Inr w'"
  shows "w' = w \<or>
    (\<not> isShuttingDown w \<and> \<not> poolFreed w \<and> f \<noteq> None \<and>
     w' = w\<lparr>heap := heap w @ [Some \<lparr>computeFunc = f, parameters = p\<rparr>],
            inflight := inflight w @ [length (heap w)]\<rparr>)"
  using assms
  by (auto simp: tpInsertTask_prepare_def tnCreate_def split: if_splits)

lemma submit_finish_effect:
  assumes "step (SubmitFinish a) w = Inr w'"
  shows "w' = w \<or>
    (a \<in> set (inflight w) \<and> \<not> poolFreed w \<and>
     w' = w\<lparr>taskQueue := taskQueue w @ [a],
            trace := trace w @ [Lock, Enq a, Signal, Unlock],
            inflight := remove1 a (inflight w)\<rparr>)"
  using assms
  by (auto simp: tpInsertTask_enqueue_def all_ok_def osEnqueue_def emit_def
      split: if_splits)
lemma proj_handles [simp]:
  "enqueued (map FreeHandle xs) = []" "dequeued (map FreeHandle xs) = []"
  "executed (map FreeHandle xs) = []" "freed (map FreeHandle xs) = []"
  "flag_writes (map FreeHandle xs) = []"
  "enqueued (map StartThread xs) = []" "dequeued (map StartThread xs) = []"
  "executed (map StartThread xs) = []" "freed (map StartThread xs) = []"
  "flag_writes (map StartThread xs) = []"
  by (induction xs) simp_all

lemma destroy_call_effect:
  assumes "step (DestroyCall d) w = Inr w'"
  shows "w' = w \<or> (\<not> poolFreed w \<and> w' = w\<lparr>destroyers := destroyers w @ [AtLock d]\<rparr>)"
  using assms
  by (auto simp: tpDestroy_guard_def split: if_splits)

lemma destroy_step_effect:
  assumes "step (DestroyStep j) w = Inr w'"
  shows "w' = w
    \<or> (\<exists>i. j < length (destroyers w) \<and> destroyers w ! j = AtJoin i \<and> \<not> poolFreed w
        \<and> \<not> int i < numOfThreads w
        \<and> w' = w\<lparr>destroyers := (destroyers w)[j := AtFreeLoop]\<rparr>)
    \<or> (j < length (destroyers w) \<and> destroyers w ! j = AtFreeLoop \<and> \<not> poolFreed w
        \<and> taskQueue w = []
        \<and> w' = w\<lparr>destroyers := (destroyers w)[j := AtRelease]\<rparr>)
    \<or> (\<exists>d. j < length (destroyers w) \<and> destroyers w ! j = AtLock d \<and> \<not> poolFreed w
        \<and> w' = w\<lparr>shouldWaitForTasks := (d \<noteq> 0), isShuttingDown := True,
                  trace := trace w
                    @ [Lock, SetDrain (d \<noteq> 0), SetShutdown True, Broadcast, Unlock],
                  destroyers := (destroyers w)[j := AtJoin 0]\<rparr>)
    \<or> (\<exists>i. j < length (destroyers w) \<and> destroyers w ! j = AtJoin i \<and> \<not> poolFreed w
        \<and> i < length (threadArray w) \<and> threadArray w ! i = Terminated
        \<and> w' = w\<lparr>trace := trace w @ [JoinThread i],
                  destroyers := (destroyers w)[j := AtJoin (Suc i)]\<rparr>)
    \<or> (\<exists>a q. j < length (destroyers w) \<and> destroyers w ! j = AtFreeLoop \<and> \<not> poolFreed w
        \<and> taskQueue w = a # q \<and> a < length (heap w)
        \<and> w' = w\<lparr>taskQueue := q, heap := (heap w)[a := None],
                  trace := trace w @ [Deq a, Free a]\<rparr>)
    \<or> (j < length (destroyers w) \<and> destroyers w ! j = AtRelease \<and> \<not> poolFreed w
        \<and> w' = w\<lparr>poolFreed := True,
                  trace := trace w @ [DestroyQueue, FreeCond, FreeMutex]
                             @ map FreeHandle [0..<nat (numOfThreads w)]
                             @ [FreeArray, FreePool],
                  destroyers := (destroyers w)[j := Gone]\<rparr>)"
proof (cases "j < length (destroyers w)")
  case False
  with assms show ?thesis by (simp add: tpDestroy_step_def)
next
  case True
  show ?thesis
  proof (cases "destroyers w ! j")
    case (AtLock d)
    with True assms show ?thesis
      by (auto simp: tpDestroy_step_def tpDestroy_shutdown_def emit_def split: if_splits)
  next
    case (AtJoin i)
    with True assms show ?thesis
      by (auto simp: tpDestroy_step_def tpDestroy_join_def emit_def split: if_splits)
  next
    case AtFreeLoop
    with True assms show ?thesis
      by (auto simp: tpDestroy_step_def freeTasks_iteration_def osIsQueueEmpty_def
          osDequeue_def free_node_def live_def emit_def split: if_splits list.splits)
  next
    case AtRelease
    with True assms show ?thesis
      by (auto simp: tpDestroy_step_def tpFreeThreadPool_release_def emit_def split: if_splits)
  next
    case Gone
    with True assms show ?thesis by (simp add: tpDestroy_step_def)
  qed
qed

lemma work_effect:
  assumes "step (Work i) w = Inr w'"
  shows "w' = w
    \<or> (i < length (threadArray w) \<and> threadArray w ! i = Waiting \<and> \<not> poolFreed w
        \<and> isShuttingDown w \<and> (shouldWaitForTasks w \<longrightarrow> taskQueue w = [])
        \<and> w' = w\<lparr>threadArray := (threadArray w)[i := Terminated],
                  trace := trace w @ [Lock, Unlock]\<rparr>)
    \<or> (\<exists>a q. i < length (threadArray w) \<and> threadArray w ! i = Waiting \<and> \<not> poolFreed w
        \<and> taskQueue w = a # q \<and> (isShuttingDown w \<longrightarrow> shouldWaitForTasks w)
        \<and> w' = w\<lparr>taskQueue := q, threadArray := (threadArray w)[i := Executing a],
                  trace := trace w @ [Lock, Deq a, Unlock]\<rparr>)
    \<or> (\<exists>a node g. i < length (threadArray w) \<and> threadArray w ! i = Executing a
        \<and> a < length (heap w) \<and> heap w ! a = Some node \<and> computeFunc node = Some g
        \<and> w' = w\<lparr>threadArray := (threadArray w)[i := Waiting],
                  heap := (heap w)[a := None],
                  trace := trace w @ [Run a g (parameters node), Free a]\<rparr>)"
proof (cases "i < length (threadArray w)")
  case False
  with assms show ?thesis by (simp add: tpRoutine_step_def)
next
  case True
  show ?thesis
  proof (cases "threadArray w ! i")
    case Waiting
    with True assms show ?thesis
      by (auto simp: tpRoutine_step_def tpRoutine_critical_def tpRoutine_decide_def
          osIsQueueEmpty_def osDequeue_def emit_def
          split: if_splits list.splits)
  next
    case (Executing a)
    with True assms show ?thesis
      by (auto simp: tpRoutine_step_def tpRoutine_execute_def free_node_def live_def emit_def
          split: if_splits option.splits)
  next
    case Terminated
    with True assms show ?thesis by (simp add: tpRoutine_step_def)
  qed
qed

subsection \<open>The nodes workers hold\<close>

lemma held_update [simp]:
  "held (w\<lparr>taskQueue := q\<rparr>) = held w"
  "held (w\<lparr>heap := h\<rparr>) = held w"
  "held (w\<lparr>trace := t\<rparr>) = held w"
  "held (w\<lparr>isShuttingDown := b\<rparr>) = held w"
  "held (w\<lparr>shouldWaitForTasks := b\<rparr>) = held w"
  "held (w\<lparr>poolFreed := b\<rparr>) = held w"
  "held (w\<lparr>inflight := q\<rparr>) = held w"
  "held (w\<lparr>destroyers := ds\<rparr>) = held w"
  "held (w\<lparr>threadArray := ta\<rparr>) = concat (map task_of ta)"
  by (simp_all add: held_def)

lemma tasks_update_mset:
  "i < length ta \<Longrightarrow>
   mset (concat (map task_of (ta[i := s]))) + mset (task_of (ta ! i))
   = mset (concat (map task_of ta)) + mset (task_of s)"
proof (induction ta arbitrary: i)
  case Nil
  then show ?case by simp
next
  case (Cons x ta)
  show ?case
  proof (cases i)
    case 0
    then show ?thesis by simp
  next
    case (Suc j)
    with Cons.prems have "j < length ta" by simp
    from Cons.IH [OF this] Suc show ?thesis by (simp add: ac_simps)
  qed
qed

lemma held_thread_update:
  assumes "i < length (threadArray w)"
  shows "mset (concat (map task_of ((threadArray w)[i := s]))) + mset (task_of (threadArray w ! i))
         = mset (held w) + mset (task_of s)"
  using tasks_update_mset [OF assms, of s] by (simp add: held_def)
subsection \<open>Consequences of the invariant\<close>

lemma inv_allocated:
  assumes "pool_inv w"
  shows "distinct (enqueued (trace w) @ inflight w)"
    and "set (enqueued (trace w)) \<union> set (inflight w) = {0..<length (heap w)}"
proof -
  from assms have m: "mset (enqueued (trace w) @ inflight w) = mset [0..<length (heap w)]"
    by (simp add: pool_inv_def)
  have "distinct [0..<length (heap w)]" by simp
  with m show "distinct (enqueued (trace w) @ inflight w)"
    by (metis mset_eq_imp_distinct_iff)
  from m have "set (enqueued (trace w) @ inflight w) = set [0..<length (heap w)]"
    by (rule mset_eq_setD)
  then show "set (enqueued (trace w)) \<union> set (inflight w) = {0..<length (heap w)}"
    by simp
qed

lemma inv_distinct_deq:
  assumes "pool_inv w" shows "distinct (dequeued (trace w) @ taskQueue w)"
proof -
  from assms have "dequeued (trace w) @ taskQueue w = enqueued (trace w)"
    by (simp add: pool_inv_def)
  with inv_allocated(1) [OF assms] show ?thesis by simp
qed

lemma inv_distinct_freed:
  assumes "pool_inv w" shows "distinct (freed (trace w) @ held w)"
proof -
  from assms have "mset (freed (trace w) @ held w) = mset (dequeued (trace w))"
    by (simp add: pool_inv_def)
  moreover from inv_distinct_deq [OF assms] have "distinct (dequeued (trace w))" by simp
  ultimately show ?thesis by (metis mset_eq_imp_distinct_iff)
qed

lemma inv_freed_held_dequeued:
  assumes "pool_inv w"
  shows "set (freed (trace w)) \<union> set (held w) = set (dequeued (trace w))"
proof -
  from assms have "mset (freed (trace w) @ held w) = mset (dequeued (trace w))"
    by (simp add: pool_inv_def)
  then have "set (freed (trace w) @ held w) = set (dequeued (trace w))"
    by (rule mset_eq_setD)
  then show ?thesis by simp
qed

lemma inv_dequeued_bound:
  assumes "pool_inv w" and "a \<in> set (dequeued (trace w)) \<union> set (taskQueue w)"
  shows "a < length (heap w)"
proof -
  from assms(1) have "dequeued (trace w) @ taskQueue w = enqueued (trace w)"
    by (simp add: pool_inv_def)
  then have "set (dequeued (trace w)) \<union> set (taskQueue w) = set (enqueued (trace w))"
    by (metis set_append)
  with assms(2) inv_allocated(2) [OF assms(1)] show ?thesis by auto
qed

lemma inv_queue_live:
  assumes "pool_inv w" and "a \<in> set (taskQueue w)"
  shows "live w a"
proof -
  from assms have b: "a < length (heap w)" by (simp add: inv_dequeued_bound)
  from inv_distinct_deq [OF assms(1)] assms(2) have "a \<notin> set (dequeued (trace w))" by auto
  with inv_freed_held_dequeued [OF assms(1)] have "a \<notin> set (freed (trace w))" by auto
  with assms(1) b have "heap w ! a \<noteq> None" by (simp add: pool_inv_def)
  with b show ?thesis by (simp add: live_def)
qed

lemma inv_held_live:
  assumes "pool_inv w" and "a \<in> set (held w)"
  shows "live w a"
proof -
  from inv_freed_held_dequeued [OF assms(1)] assms(2)
  have "a \<in> set (dequeued (trace w))" by auto
  with assms(1) have b: "a < length (heap w)" by (simp add: inv_dequeued_bound)
  from inv_distinct_freed [OF assms(1)] assms(2) have "a \<notin> set (freed (trace w))" by auto
  with assms(1) b have "heap w ! a \<noteq> None" by (simp add: pool_inv_def)
  with b show ?thesis by (simp add: live_def)
qed

lemma thread_task_held:
  "i < length (threadArray w) \<Longrightarrow> threadArray w ! i = Executing a \<Longrightarrow> a \<in> set (held w)"
  unfolding held_def by (force simp: in_set_conv_nth)

lemma inv_freed_bound:
  assumes "pool_inv w" and "a \<in> set (freed (trace w))"
  shows "a < length (heap w)"
  using inv_freed_held_dequeued [OF assms(1)] inv_dequeued_bound [OF assms(1), of a] assms(2)
  by auto

lemma subseq_distinct:
  "subseq xs ys \<Longrightarrow> distinct ys \<Longrightarrow> distinct xs"
  using subseqs_distinctD [of xs ys] by (simp add: in_set_subseqs)

subsection \<open>Every step keeps the invariant\<close>

lemma inv_destroyers [simp]: "pool_inv (w\<lparr>destroyers := ds\<rparr>) = pool_inv w"
  by (simp add: pool_inv_def)

lemma inv_quiet:
  assumes "pool_inv w"
    and "enqueued es = []" "dequeued es = []" "freed es = []" "executed es = []"
  shows "pool_inv (w\<lparr>trace := trace w @ es\<rparr>)"
    and "pool_inv (w\<lparr>poolFreed := b, trace := trace w @ es\<rparr>)"
  using assms by (simp_all add: pool_inv_def)

lemma inv_prepare:
  assumes inv: "pool_inv w" and f: "f \<noteq> None"
  shows "pool_inv (w\<lparr>heap := heap w @ [Some \<lparr>computeFunc = f, parameters = p\<rparr>],
            inflight := inflight w @ [length (heap w)]\<rparr>)"
proof -
  have bound: "a \<in> set (freed (trace w)) \<Longrightarrow> a < length (heap w)" for a
    using inv_freed_bound [OF inv] by blast
  then have fresh: "length (heap w) \<notin> set (freed (trace w))" by blast
  from inv f fresh show ?thesis
    unfolding pool_inv_def
    by (auto simp: nth_append less_Suc_eq dest: bound)
qed

lemma inv_enqueue:
  assumes inv: "pool_inv w" and a: "a \<in> set (inflight w)"
  shows "pool_inv (w\<lparr>taskQueue := taskQueue w @ [a],
            trace := trace w @ [Lock, Enq a, Signal, Unlock],
            inflight := remove1 a (inflight w)\<rparr>)"
proof -
  from a have "a \<in># mset (inflight w)" by simp
  then have "add_mset a (mset (enqueued (trace w)) + (mset (inflight w) - {#a#}))
      = mset (enqueued (trace w)) + mset (inflight w)"
    by (metis insert_DiffM union_mset_add_mset_right)
  with inv show ?thesis
    unfolding pool_inv_def by auto
qed

lemma inv_shutdown:
  assumes inv: "pool_inv w"
  shows "pool_inv (w\<lparr>shouldWaitForTasks := b, isShuttingDown := True,
            trace := trace w @ [Lock, SetDrain b, SetShutdown True, Broadcast, Unlock]\<rparr>)"
  using assms unfolding pool_inv_def by auto

lemma inv_break:
  assumes inv: "pool_inv w"
    and i: "i < length (threadArray w)" and st: "threadArray w ! i = Waiting"
  shows "pool_inv (w\<lparr>threadArray := (threadArray w)[i := Terminated],
                  trace := trace w @ [Lock, Unlock]\<rparr>)"
proof -
  from held_thread_update [OF i, of Terminated] st
  have "mset (concat (map task_of ((threadArray w)[i := Terminated]))) = mset (held w)"
    by simp
  with inv show ?thesis
    unfolding pool_inv_def by auto
qed

lemma inv_pop:
  assumes inv: "pool_inv w"
    and i: "i < length (threadArray w)" and st: "threadArray w ! i = Waiting"
    and q: "taskQueue w = a # q"
  shows "pool_inv (w\<lparr>taskQueue := q, threadArray := (threadArray w)[i := Executing a],
                  trace := trace w @ [Lock, Deq a, Unlock]\<rparr>)"
proof -
  from held_thread_update [OF i, of "Executing a"] st
  have "mset (concat (map task_of ((threadArray w)[i := Executing a])))
        = mset (held w) + {#a#}"
    by simp
  with inv q show ?thesis
    unfolding pool_inv_def by auto
qed

lemma inv_execute:
  assumes inv: "pool_inv w"
    and i: "i < length (threadArray w)" and st: "threadArray w ! i = Executing a"
    and a: "a < length (heap w)"
  shows "pool_inv (w\<lparr>threadArray := (threadArray w)[i := Waiting],
                  heap := (heap w)[a := None],
                  trace := trace w @ [Run a g x, Free a]\<rparr>)"
proof -
  from held_thread_update [OF i, of Waiting] st
  have h: "mset (concat (map task_of ((threadArray w)[i := Waiting]))) + {#a#}
        = mset (held w)"
    by simp
  from inv have m: "mset (freed (trace w)) + mset (held w) = mset (dequeued (trace w))"
    by (simp add: pool_inv_def)
  have m': "mset (freed (trace w)) + {#a#}
            + mset (concat (map task_of ((threadArray w)[i := Waiting])))
          = mset (dequeued (trace w))"
    using h m by (metis add.assoc add.commute)
  from inv a m' show ?thesis
    unfolding pool_inv_def
    by (auto simp: nth_list_update)
qed

lemma inv_free_task:
  assumes inv: "pool_inv w" and q: "taskQueue w = a # q" and a: "a < length (heap w)"
  shows "pool_inv (w\<lparr>taskQueue := q, heap := (heap w)[a := None],
                  trace := trace w @ [Deq a, Free a]\<rparr>)"
  using inv q a unfolding pool_inv_def
  by (auto simp: nth_list_update subseq_rev_drop_many)

lemma step_preserves_inv:
  assumes inv: "pool_inv w" and st: "step a w = Inr w'"
  shows "pool_inv w'"
proof (cases a)
  case (SubmitEnter f p m)
  with st inv submit_enter_effect [of f p m w w'] show ?thesis
    by (auto intro: inv_prepare)
next
  case (SubmitFinish b)
  with st inv submit_finish_effect [of b w w'] show ?thesis
    by (auto intro: inv_enqueue)
next
  case (DestroyCall d)
  with st inv destroy_call_effect [of d w w'] show ?thesis by auto
next
  case (DestroyStep j)
  with st have "step (DestroyStep j) w = Inr w'" by simp
  from destroy_step_effect [OF this] show ?thesis
  proof (elim disjE exE conjE)
    assume "w' = w" with inv show ?thesis by simp
  next
    assume "w' = w\<lparr>destroyers := (destroyers w)[j := AtFreeLoop]\<rparr>"
    with inv show ?thesis by simp
  next
    assume "w' = w\<lparr>destroyers := (destroyers w)[j := AtRelease]\<rparr>"
    with inv show ?thesis by simp
  next
    fix d
    assume w': "w' = w\<lparr>shouldWaitForTasks := (d \<noteq> 0), isShuttingDown := True,
                  trace := trace w
                    @ [Lock, SetDrain (d \<noteq> 0), SetShutdown True, Broadcast, Unlock],
                  destroyers := (destroyers w)[j := AtJoin 0]\<rparr>"
    from inv_shutdown [OF inv, of "d \<noteq> 0"] show ?thesis unfolding w' by simp
  next
    fix i
    assume w': "w' = w\<lparr>trace := trace w @ [JoinThread i],
                  destroyers := (destroyers w)[j := AtJoin (Suc i)]\<rparr>"
    from inv_quiet(1) [OF inv, of "[JoinThread i]"] show ?thesis unfolding w' by simp
  next
    fix b q
    assume q: "taskQueue w = b # q" and b: "b < length (heap w)"
      and w': "w' = w\<lparr>taskQueue := q, heap := (heap w)[b := None],
                  trace := trace w @ [Deq b, Free b]\<rparr>"
    from inv_free_task [OF inv q b] show ?thesis unfolding w' .
  next
    assume w': "w' = w\<lparr>poolFreed := True,
                  trace := trace w @ [DestroyQueue, FreeCond, FreeMutex]
                             @ map FreeHandle [0..<nat (numOfThreads w)]
                             @ [FreeArray, FreePool],
                  destroyers := (destroyers w)[j := Gone]\<rparr>"
    from inv_quiet(2) [OF inv, of "[DestroyQueue, FreeCond, FreeMutex]
                             @ map FreeHandle [0..<nat (numOfThreads w)]
                             @ [FreeArray, FreePool]" True]
    show ?thesis unfolding w' by simp
  qed
next
  case (Work i)
  with st have "step (Work i) w = Inr w'" by simp
  from work_effect [OF this] inv show ?thesis
    by (auto intro: inv_break inv_pop inv_execute)
qed

text \<open>
  The only failure a step can meet in a reachable world is a use of the pool after it
  was released: no double free of a node, no dangling node, no dequeue from an empty
  queue, no \<^verbatim>\<open>NULL\<close> callable.
\<close>

lemma step_error:
  assumes inv: "pool_inv w" and st: "step a w = Inl e"
  shows "e = UseAfterFree \<and> poolFreed w"
proof (cases a)
  case (SubmitEnter f p m)
  with st show ?thesis
    by (auto simp: tpInsertTask_prepare_def tnCreate_def split: if_splits)
next
  case (SubmitFinish b)
  with st show ?thesis
    by (auto simp: tpInsertTask_enqueue_def all_ok_def Let_def split: if_splits)
next
  case (DestroyCall d)
  with st show ?thesis
    by (auto simp: tpDestroy_guard_def split: if_splits)
next
  case (DestroyStep j)
  with st have s: "tpDestroy_step j w = Inl e" by simp
  then have j: "j < length (destroyers w)"
    by (auto simp: tpDestroy_step_def split: if_splits)
  show ?thesis
  proof (cases "destroyers w ! j")
    case (AtLock d)
    with s j show ?thesis
      by (auto simp: tpDestroy_step_def tpDestroy_shutdown_def Let_def split: if_splits)
  next
    case (AtJoin i)
    from inv have "length (threadArray w) = nat (numOfThreads w)" by (simp add: pool_inv_def)
    with AtJoin s j show ?thesis
      by (auto simp: tpDestroy_step_def tpDestroy_join_def split: if_splits)
  next
    case AtFreeLoop
    have "\<forall>b\<in>set (taskQueue w). live w b" using inv_queue_live [OF inv] by blast
    with AtFreeLoop s j show ?thesis
      by (auto simp: tpDestroy_step_def freeTasks_iteration_def osIsQueueEmpty_def
          osDequeue_def free_node_def live_def emit_def split: if_splits list.splits)
  next
    case AtRelease
    with s j show ?thesis
      by (auto simp: tpDestroy_step_def tpFreeThreadPool_release_def split: if_splits)
  next
    case Gone
    with s j show ?thesis by (simp add: tpDestroy_step_def)
  qed
next
  case (Work i)
  with st have s: "tpRoutine_step i w = Inl e" by simp
  then have i: "i < length (threadArray w)"
    by (auto simp: tpRoutine_step_def split: if_splits)
  show ?thesis
  proof (cases "threadArray w ! i")
    case Waiting
    with s i show ?thesis
      by (auto simp: tpRoutine_step_def tpRoutine_critical_def tpRoutine_decide_def
          osIsQueueEmpty_def osDequeue_def split: if_splits list.splits)
  next
    case (Executing a)
    from thread_task_held [OF i Executing] have "a \<in> set (held w)" .
    from inv_held_live [OF inv this] have l: "live w a" .
    then obtain node where n: "heap w ! a = Some node" by (auto simp: live_def)
    from inv have "\<forall>a<length (heap w). \<forall>node. heap w ! a = Some node \<longrightarrow> computeFunc node \<noteq> None"
      by (simp add: pool_inv_def)
    with l n have "computeFunc node \<noteq> None" by (simp add: live_def)
    then obtain g where "computeFunc node = Some g" by auto
    with s i Executing l n show ?thesis
      by (simp add: tpRoutine_step_def tpRoutine_execute_def free_node_def live_def emit_def)
  next
    case Terminated
    with s i show ?thesis by (simp add: tpRoutine_step_def)
  qed
qed

lemma run_preserves_inv:
  "pool_inv w \<Longrightarrow> run acts w = Inr w' \<Longrightarrow> pool_inv w'"
proof (induction acts arbitrary: w)
  case Nil
  then show ?case by simp
next
  case (Cons a acts)
  from Cons.prems(2) obtain w1 where s: "step a w = Inr w1" and r: "run acts w1 = Inr w'"
    by (auto split: sum.splits)
  from step_preserves_inv [OF Cons.prems(1) s] Cons.IH r show ?case by blast
qed

lemma run_error:
  "pool_inv w \<Longrightarrow> run acts w = Inl e \<Longrightarrow> e = UseAfterFree"
proof (induction acts arbitrary: w)
  case Nil
  then show ?case by simp
next
  case (Cons a acts)
  show ?case
  proof (cases "step a w")
    case (Inl e')
    with Cons.prems step_error [OF Cons.prems(1) Inl] show ?thesis by simp
  next
    case (Inr w1)
    with Cons.prems have "run acts w1 = Inl e" by simp
    with step_preserves_inv [OF Cons.prems(1) Inr] Cons.IH show ?thesis by blast
  qed
qed

lemma tpCreate_inv:
  assumes "tpCreate al junk n = Created w0"
  shows "pool_inv w0 \<and> \<not> isShuttingDown w0 \<and> \<not> poolFreed w0
         \<and> flag_writes (trace w0) = [SetShutdown False]"
proof -
  have "concat (map task_of (replicate k Waiting)) = []" for k
    by (induction k) simp_all
  with assms show ?thesis
    by (cases "startThreads (handle_ok al) 0 (nat n)")
      (auto simp: tpCreate_def pool_inv_def held_def osCreateQueue_def
        split: if_splits)
qed

subsection \<open>The shutdown fields\<close>

lemma filter_update_same:
  "j < length xs \<Longrightarrow> P (xs ! j) = P s \<Longrightarrow>
   length (filter P (xs[j := s])) = length (filter P xs)"
proof (induction xs arbitrary: j)
  case Nil
  then show ?case by simp
next
  case (Cons x xs)
  then show ?case by (cases j) auto
qed

lemma filter_update_new:
  "j < length xs \<Longrightarrow> \<not> P (xs ! j) \<Longrightarrow> P s \<Longrightarrow>
   length (filter P (xs[j := s])) = Suc (length (filter P xs))"
proof (induction xs arbitrary: j)
  case Nil
  then show ?case by simp
next
  case (Cons x xs)
  then show ?case by (cases j) auto
qed

text \<open>
  What a step does to the trace and to the two shutdown fields: it leaves the fields as
  they are and writes neither, or it is the critical section of \<^verbatim>\<open>tpDestroy\<close>, run by a
  caller that was past the guard: it writes the drain flag, then sets \<^verbatim>\<open>isShuttingDown\<close>,
  between a lock and its unlock.
\<close>

lemma step_fields:
  assumes "step a w = Inr w'"
  shows "(\<exists>new. trace w' = trace w @ new \<and> flag_writes new = []
            \<and> isShuttingDown w' = isShuttingDown w
            \<and> shouldWaitForTasks w' = shouldWaitForTasks w
            \<and> length (filter past_lock (destroyers w'))
                = length (filter past_lock (destroyers w)))
       \<or> (\<exists>b. trace w' = trace w @ [Lock, SetDrain b, SetShutdown True, Broadcast, Unlock]
            \<and> isShuttingDown w' \<and> shouldWaitForTasks w' = b
            \<and> length (filter past_lock (destroyers w'))
                = Suc (length (filter past_lock (destroyers w))))"
proof (cases a)
  case (SubmitEnter f p m)
  with assms submit_enter_effect [of f p m w w'] show ?thesis by auto
next
  case (SubmitFinish b)
  with assms submit_finish_effect [of b w w'] show ?thesis by auto
next
  case (DestroyCall d)
  with assms destroy_call_effect [of d w w'] show ?thesis by auto
next
  case (DestroyStep j)
  with assms have "step (DestroyStep j) w = Inr w'" by simp
  from destroy_step_effect [OF this] show ?thesis
    by (elim disjE exE conjE) (simp_all add: filter_update_same filter_update_new)
next
  case (Work i)
  with assms work_effect [of i w w'] show ?thesis by auto
qed

lemma step_trace_extends:
  assumes "step a w = Inr w'"
  shows "\<exists>new. trace w' = trace w @ new"
  using step_fields [OF assms] by auto

lemma run_trace_extends:
  "run acts w = Inr w' \<Longrightarrow> \<exists>new. trace w' = trace w @ new"
proof (induction acts arbitrary: w)
  case Nil
  then show ?case by simp
next
  case (Cons a acts)
  from Cons.prems obtain w1 where s: "step a w = Inr w1" and r: "run acts w1 = Inr w'"
    by (auto split: sum.splits)
  from step_trace_extends [OF s] Cons.IH [OF r] show ?case by auto
qed

lemma shutdown_pairs_simps [simp]:
  "shutdown_pairs [] = []"
  "shutdown_pairs (bs @ [b]) = shutdown_pairs bs @ [SetDrain b, SetShutdown True]"
  by (simp_all add: shutdown_pairs_def)

lemma flag_step:
  assumes fi: "flag_inv w" and st: "step a w = Inr w'"
  shows "flag_inv w' \<and> (isShuttingDown w \<longrightarrow> isShuttingDown w')"
proof -
  from fi obtain bs where bs: "flag_writes (trace w) = SetShutdown False # shutdown_pairs bs"
    "isShuttingDown w = (bs \<noteq> [])" "bs \<noteq> [] \<longrightarrow> shouldWaitForTasks w = last bs"
    "length bs = length (filter past_lock (destroyers w))"
    unfolding flag_inv_def by blast
  from step_fields [OF st] show ?thesis
  proof (elim disjE exE conjE)
    fix new
    assume "trace w' = trace w @ new" "flag_writes new = []"
      "isShuttingDown w' = isShuttingDown w" "shouldWaitForTasks w' = shouldWaitForTasks w"
      "length (filter past_lock (destroyers w')) = length (filter past_lock (destroyers w))"
    with bs have "flag_writes (trace w') = SetShutdown False # shutdown_pairs bs
        \<and> isShuttingDown w' = (bs \<noteq> []) \<and> (bs \<noteq> [] \<longrightarrow> shouldWaitForTasks w' = last bs)
        \<and> length bs = length (filter past_lock (destroyers w'))"
      by simp
    then have "flag_inv w'" unfolding flag_inv_def by blast
    with \<open>isShuttingDown w' = isShuttingDown w\<close> show ?thesis by simp
  next
    fix b
    assume "trace w' = trace w @ [Lock, SetDrain b, SetShutdown True, Broadcast, Unlock]"
      "isShuttingDown w'" "shouldWaitForTasks w' = b"
      "length (filter past_lock (destroyers w'))
        = Suc (length (filter past_lock (destroyers w)))"
    with bs have "flag_writes (trace w') = SetShutdown False # shutdown_pairs (bs @ [b])
        \<and> isShuttingDown w' = (bs @ [b] \<noteq> [])
        \<and> (bs @ [b] \<noteq> [] \<longrightarrow> shouldWaitForTasks w' = last (bs @ [b]))
        \<and> length (bs @ [b]) = length (filter past_lock (destroyers w'))"
      by simp
    then have "flag_inv w'" unfolding flag_inv_def by blast
    with \<open>isShuttingDown w'\<close> show ?thesis by simp
  qed
qed

lemma flag_run:
  assumes "flag_inv w" and "run acts w = Inr w'"
  shows "flag_inv w' \<and> (isShuttingDown w \<longrightarrow> isShuttingDown w')"
  using assms
proof (induction acts arbitrary: w)
  case Nil
  then show ?case by simp
next
  case (Cons a acts)
  from Cons.prems(2) obtain w1 where s: "step a w = Inr w1" and r: "run acts w1 = Inr w'"
    by (auto split: sum.splits)
  from flag_step [OF Cons.prems(1) s] Cons.IH [OF _ r] show ?case by blast
qed

lemma tpCreate_flag_inv:
  assumes "tpCreate al junk n = Created w0"
  shows "flag_inv w0"
proof -
  from assms have "destroyers w0 = []"
    by (auto simp: tpCreate_def split: if_splits option.splits)
  with tpCreate_inv [OF assms]
  have "flag_writes (trace w0) = SetShutdown False # shutdown_pairs []
      \<and> isShuttingDown w0 = ([] \<noteq> ([] :: bool list))
      \<and> (([] :: bool list) \<noteq> [] \<longrightarrow> shouldWaitForTasks w0 = last [])
      \<and> length ([] :: bool list) = length (filter past_lock (destroyers w0))"
    by simp
  then show ?thesis unfolding flag_inv_def by blast
qed

subsection \<open>Joined workers and the release of the pool\<close>

lemma join_inv_frame:
  assumes "join_inv w" and "destroyers w' = destroyers w"
    and "threadArray w' = threadArray w" and "poolFreed w' = poolFreed w"
  shows "join_inv w'"
  using assms by (simp add: join_inv_def)

lemma join_inv_pc:
  assumes ji: "join_inv w" and j: "j < length (destroyers w)"
    and s: "\<forall>i<length (threadArray w). joins_done s i \<longrightarrow> threadArray w ! i = Terminated"
    and f: "b \<longrightarrow> s = Gone"
    and w': "destroyers w' = (destroyers w)[j := s]" "threadArray w' = threadArray w"
      "poolFreed w' = (poolFreed w \<or> b)"
    and nf: "\<not> poolFreed w"
  shows "join_inv w'"
proof -
  have "set ((destroyers w)[j := s]) \<subseteq> insert s (set (destroyers w))"
    by (rule set_update_subset_insert)
  with ji s w' have 1: "\<forall>s\<in>set (destroyers w'). \<forall>i<length (threadArray w').
          joins_done s i \<longrightarrow> threadArray w' ! i = Terminated"
    unfolding join_inv_def by auto
  from j f w' nf have 2: "poolFreed w' \<longrightarrow> Gone \<in> set (destroyers w')"
    by (auto intro: set_update_memI)
  from 1 2 show ?thesis unfolding join_inv_def by blast
qed

lemma join_inv_thread:
  assumes ji: "join_inv w" and i: "i < length (threadArray w)"
    and old: "threadArray w ! i \<noteq> Terminated \<or> s = Terminated"
    and w': "destroyers w' = destroyers w" "threadArray w' = (threadArray w)[i := s]"
      "poolFreed w' = poolFreed w"
  shows "join_inv w'"
  using assms unfolding join_inv_def
  by (auto simp: nth_list_update)

lemma join_step:
  assumes ji: "join_inv w" and inv: "pool_inv w" and st: "step a w = Inr w'"
  shows "join_inv w'"
proof (cases a)
  case (SubmitEnter f p m)
  with st submit_enter_effect [of f p m w w'] ji show ?thesis
    by (auto intro: join_inv_frame)
next
  case (SubmitFinish b)
  with st submit_finish_effect [of b w w'] ji show ?thesis
    by (auto intro: join_inv_frame)
next
  case (DestroyCall d)
  with st destroy_call_effect [of d w w'] ji show ?thesis
    by (auto simp: join_inv_def)
next
  case (DestroyStep j)
  from inv have len: "length (threadArray w) = nat (numOfThreads w)"
    by (simp add: pool_inv_def)
  from DestroyStep st have "step (DestroyStep j) w = Inr w'" by simp
  from destroy_step_effect [OF this] show ?thesis
  proof (elim disjE exE conjE)
    assume "w' = w" with ji show ?thesis by simp
  next
    fix i
    assume j: "j < length (destroyers w)" and pc: "destroyers w ! j = AtJoin i"
      and nf: "\<not> poolFreed w" and i: "\<not> int i < numOfThreads w"
      and w': "w' = w\<lparr>destroyers := (destroyers w)[j := AtFreeLoop]\<rparr>"
    from j pc have "AtJoin i \<in> set (destroyers w)" by (metis nth_mem)
    with ji i len
    have "\<forall>k<length (threadArray w). joins_done AtFreeLoop k \<longrightarrow> threadArray w ! k = Terminated"
      unfolding join_inv_def by fastforce
    from join_inv_pc [OF ji j this, of False w'] w' nf show ?thesis by simp
  next
    assume j: "j < length (destroyers w)" and pc: "destroyers w ! j = AtFreeLoop"
      and nf: "\<not> poolFreed w"
      and w': "w' = w\<lparr>destroyers := (destroyers w)[j := AtRelease]\<rparr>"
    from j pc have "AtFreeLoop \<in> set (destroyers w)" by (metis nth_mem)
    with ji
    have "\<forall>k<length (threadArray w). joins_done AtRelease k \<longrightarrow> threadArray w ! k = Terminated"
      unfolding join_inv_def by fastforce
    from join_inv_pc [OF ji j this, of False w'] w' nf show ?thesis by simp
  next
    fix d
    assume j: "j < length (destroyers w)" and nf: "\<not> poolFreed w"
      and w': "w' = w\<lparr>shouldWaitForTasks := (d \<noteq> 0), isShuttingDown := True,
                  trace := trace w
                    @ [Lock, SetDrain (d \<noteq> 0), SetShutdown True, Broadcast, Unlock],
                  destroyers := (destroyers w)[j := AtJoin 0]\<rparr>"
    have "\<forall>k<length (threadArray w). joins_done (AtJoin 0) k \<longrightarrow> threadArray w ! k = Terminated"
      by simp
    from join_inv_pc [OF ji j this, of False w'] w' nf show ?thesis by simp
  next
    fix i
    assume j: "j < length (destroyers w)" and pc: "destroyers w ! j = AtJoin i"
      and nf: "\<not> poolFreed w" and t: "threadArray w ! i = Terminated"
      and w': "w' = w\<lparr>trace := trace w @ [JoinThread i],
                  destroyers := (destroyers w)[j := AtJoin (Suc i)]\<rparr>"
    from j pc have "AtJoin i \<in> set (destroyers w)" by (metis nth_mem)
    with ji t
    have "\<forall>k<length (threadArray w). joins_done (AtJoin (Suc i)) k
            \<longrightarrow> threadArray w ! k = Terminated"
      unfolding join_inv_def by (fastforce simp: less_Suc_eq)
    from join_inv_pc [OF ji j this, of False w'] w' nf show ?thesis by simp
  next
    fix b q
    assume "w' = w\<lparr>taskQueue := q, heap := (heap w)[b := None],
                  trace := trace w @ [Deq b, Free b]\<rparr>"
    with ji show ?thesis by (auto intro: join_inv_frame)
  next
    assume j: "j < length (destroyers w)" and pc: "destroyers w ! j = AtRelease"
      and nf: "\<not> poolFreed w"
      and w': "w' = w\<lparr>poolFreed := True,
                  trace := trace w @ [DestroyQueue, FreeCond, FreeMutex]
                             @ map FreeHandle [0..<nat (numOfThreads w)]
                             @ [FreeArray, FreePool],
                  destroyers := (destroyers w)[j := Gone]\<rparr>"
    from j pc have "AtRelease \<in> set (destroyers w)" by (metis nth_mem)
    with ji
    have "\<forall>k<length (threadArray w). joins_done Gone k \<longrightarrow> threadArray w ! k = Terminated"
      unfolding join_inv_def by fastforce
    from join_inv_pc [OF ji j this, of True w'] w' nf show ?thesis by simp
  qed
next
  case (Work i)
  with st have "step (Work i) w = Inr w'" by simp
  from work_effect [OF this] show ?thesis
  proof (elim disjE exE conjE)
    assume "w' = w" with ji show ?thesis by simp
  next
    assume i: "i < length (threadArray w)"
      and w': "w' = w\<lparr>threadArray := (threadArray w)[i := Terminated],
                      trace := trace w @ [Lock, Unlock]\<rparr>"
    from join_inv_thread [OF ji i, of Terminated w'] w' show ?thesis by simp
  next
    fix b q
    assume i: "i < length (threadArray w)" and o: "threadArray w ! i = Waiting"
      and w': "w' = w\<lparr>taskQueue := q, threadArray := (threadArray w)[i := Executing b],
                  trace := trace w @ [Lock, Deq b, Unlock]\<rparr>"
    from join_inv_thread [OF ji i, of "Executing b" w'] o w' show ?thesis by simp
  next
    fix b g and node :: task_node
    assume i: "i < length (threadArray w)" and o: "threadArray w ! i = Executing b"
      and w': "w' = w\<lparr>threadArray := (threadArray w)[i := Waiting],
                      heap := (heap w)[b := None],
                      trace := trace w @ [Run b g (parameters node), Free b]\<rparr>"
    from join_inv_thread [OF ji i, of Waiting w'] o w' show ?thesis by simp
  qed
qed

lemma join_run:
  "join_inv w \<Longrightarrow> pool_inv w \<Longrightarrow> run acts w = Inr w' \<Longrightarrow> join_inv w'"
proof (induction acts arbitrary: w)
  case Nil
  then show ?case by simp
next
  case (Cons a acts)
  from Cons.prems(3) obtain w1 where s: "step a w = Inr w1" and r: "run acts w1 = Inr w'"
    by (auto split: sum.splits)
  from join_step [OF Cons.prems(1,2) s] step_preserves_inv [OF Cons.prems(2) s] Cons.IH r
  show ?case by blast
qed

lemma tpCreate_join_inv:
  assumes "tpCreate al junk n = Created w0"
  shows "join_inv w0"
  using assms
  by (auto simp: tpCreate_def join_inv_def split: if_splits option.splits)

text \<open>When the pool is released every worker has exited, so no worker holds a task.\<close>

lemma released_holds_nothing:
  assumes "join_inv w" and "poolFreed w"
  shows "held w = []"
proof -
  from assms have "\<forall>i<length (threadArray w). threadArray w ! i = Terminated"
    unfolding join_inv_def by fastforce
  then have "\<forall>s\<in>set (threadArray w). s = Terminated"
    by (simp add: all_set_conv_all_nth)
  moreover have "\<forall>s\<in>set ta. s = Terminated \<Longrightarrow> concat (map task_of ta) = []" for ta
    by (induction ta) auto
  ultimately show ?thesis by (simp add: held_def)
qed

subsection \<open>When the calls do not race\<close>

lemma quiet_step:
  assumes q: "quiet_inv w" and st: "step a w = Inr w'"
  shows "quiet_inv w'"
proof (cases a)
  case (SubmitEnter f p m)
  with st submit_enter_effect [of f p m w w'] q show ?thesis
    by (auto simp: quiet_inv_def)
next
  case (SubmitFinish b)
  with st submit_finish_effect [of b w w'] q show ?thesis
    by (auto simp: quiet_inv_def)
next
  case (DestroyCall d)
  with st destroy_call_effect [of d w w'] q show ?thesis
    by (auto simp: quiet_inv_def)
next
  case (DestroyStep j)
  have up: "past_loop s' \<Longrightarrow> s' \<in> set ((destroyers w)[j := s]) \<Longrightarrow>
      past_loop s \<or> (\<exists>s\<in>set (destroyers w). past_loop s)" for s s'
    using set_update_subset_insert [of "destroyers w" j s] by auto
  from DestroyStep st have "step (DestroyStep j) w = Inr w'" by simp
  from destroy_step_effect [OF this] show ?thesis
  proof (elim disjE exE conjE)
    assume "w' = w" with q show ?thesis by simp
  next
    fix i
    assume "w' = w\<lparr>destroyers := (destroyers w)[j := AtFreeLoop]\<rparr>"
    with q show ?thesis by (auto simp: quiet_inv_def dest: up)
  next
    assume "taskQueue w = []" "w' = w\<lparr>destroyers := (destroyers w)[j := AtRelease]\<rparr>"
    with q show ?thesis by (auto simp: quiet_inv_def)
  next
    fix d
    assume "w' = w\<lparr>shouldWaitForTasks := (d \<noteq> 0), isShuttingDown := True,
                  trace := trace w
                    @ [Lock, SetDrain (d \<noteq> 0), SetShutdown True, Broadcast, Unlock],
                  destroyers := (destroyers w)[j := AtJoin 0]\<rparr>"
    with q show ?thesis by (auto simp: quiet_inv_def dest: up)
  next
    fix i
    assume "w' = w\<lparr>trace := trace w @ [JoinThread i],
                  destroyers := (destroyers w)[j := AtJoin (Suc i)]\<rparr>"
    with q show ?thesis by (auto simp: quiet_inv_def dest: up)
  next
    fix b r
    assume "taskQueue w = b # r"
      "w' = w\<lparr>taskQueue := r, heap := (heap w)[b := None],
                  trace := trace w @ [Deq b, Free b]\<rparr>"
    with q show ?thesis by (auto simp: quiet_inv_def)
  next
    assume j: "j < length (destroyers w)" and pc: "destroyers w ! j = AtRelease"
      and w': "w' = w\<lparr>poolFreed := True,
                  trace := trace w @ [DestroyQueue, FreeCond, FreeMutex]
                             @ map FreeHandle [0..<nat (numOfThreads w)]
                             @ [FreeArray, FreePool],
                  destroyers := (destroyers w)[j := Gone]\<rparr>"
    from j pc have "AtRelease \<in> set (destroyers w)" by (metis nth_mem)
    then have "\<exists>s\<in>set (destroyers w). past_loop s" by force
    with q w' show ?thesis by (auto simp: quiet_inv_def)
  qed
next
  case (Work i)
  with st work_effect [of i w w'] q show ?thesis
    by (auto simp: quiet_inv_def)
qed

lemma quiet_run:
  "quiet_inv w \<Longrightarrow> run acts w = Inr w' \<Longrightarrow> quiet_inv w'"
proof (induction acts arbitrary: w)
  case Nil
  then show ?case by simp
next
  case (Cons a acts)
  from Cons.prems(2) obtain w1 where s: "step a w = Inr w1" and r: "run acts w1 = Inr w'"
    by (auto split: sum.splits)
  from quiet_step [OF Cons.prems(1) s] Cons.IH r show ?case by blast
qed

lemma tasks_update_set:
  assumes "i < length ta"
  shows "set (concat (map task_of (ta[i := s]))) \<subseteq> set (concat (map task_of ta)) \<union> set (task_of s)"
proof -
  from tasks_update_mset [OF assms, of s]
  have "set_mset (mset (concat (map task_of (ta[i := s]))) + mset (task_of (ta ! i)))
        = set_mset (mset (concat (map task_of ta)) + mset (task_of s))"
    by simp
  then show ?thesis by auto
qed

lemma held_after_update:
  assumes "i < length (threadArray w)" and "threadArray w' = (threadArray w)[i := s]"
  shows "set (held w') \<subseteq> set (held w) \<union> set (task_of s)"
  using tasks_update_set [OF assms(1), of s] assms(2) by (simp add: held_def)

lemma nodrain_step:
  assumes nd: "nodrain_inv w" and st: "step a w = Inr w'"
  shows "nodrain_inv w'
    \<and> set (executed (trace w')) \<union> set (held w') \<subseteq> set (executed (trace w)) \<union> set (held w)"
proof (cases a)
  case (SubmitEnter f p m)
  with st submit_enter_effect [of f p m w w'] nd show ?thesis
    by (auto simp: nodrain_inv_def)
next
  case (SubmitFinish b)
  with st submit_finish_effect [of b w w'] nd show ?thesis
    by (auto simp: nodrain_inv_def)
next
  case (DestroyCall d)
  with st nd show ?thesis
    by (auto simp: nodrain_inv_def tpDestroy_guard_def split: if_splits)
next
  case (DestroyStep j)
  have up: "s' \<in> set ((destroyers w)[j := s]) \<Longrightarrow> past_lock s \<Longrightarrow> past_lock s'" for s s'
    using set_update_subset_insert [of "destroyers w" j s] nd
    by (auto simp: nodrain_inv_def)
  from DestroyStep st have "step (DestroyStep j) w = Inr w'" by simp
  from destroy_step_effect [OF this] show ?thesis
  proof (elim disjE exE conjE)
    assume "w' = w" with nd show ?thesis by simp
  next
    fix i
    assume "w' = w\<lparr>destroyers := (destroyers w)[j := AtFreeLoop]\<rparr>"
    with nd show ?thesis by (auto simp: nodrain_inv_def dest: up)
  next
    assume "w' = w\<lparr>destroyers := (destroyers w)[j := AtRelease]\<rparr>"
    with nd show ?thesis by (auto simp: nodrain_inv_def dest: up)
  next
    fix d
    assume "j < length (destroyers w)" "destroyers w ! j = AtLock d"
    then have "AtLock d \<in> set (destroyers w)" by (metis nth_mem)
    with nd show ?thesis by (auto simp: nodrain_inv_def)
  next
    fix i
    assume "w' = w\<lparr>trace := trace w @ [JoinThread i],
                  destroyers := (destroyers w)[j := AtJoin (Suc i)]\<rparr>"
    with nd show ?thesis by (auto simp: nodrain_inv_def dest: up)
  next
    fix b r
    assume "w' = w\<lparr>taskQueue := r, heap := (heap w)[b := None],
                  trace := trace w @ [Deq b, Free b]\<rparr>"
    with nd show ?thesis by (auto simp: nodrain_inv_def)
  next
    assume "w' = w\<lparr>poolFreed := True,
                  trace := trace w @ [DestroyQueue, FreeCond, FreeMutex]
                             @ map FreeHandle [0..<nat (numOfThreads w)]
                             @ [FreeArray, FreePool],
                  destroyers := (destroyers w)[j := Gone]\<rparr>"
    with nd show ?thesis by (auto simp: nodrain_inv_def dest: up)
  qed
next
  case (Work i)
  from nd have sd: "isShuttingDown w" and ndr: "\<not> shouldWaitForTasks w"
    by (simp_all add: nodrain_inv_def)
  from Work st have "step (Work i) w = Inr w'" by simp
  from work_effect [OF this] show ?thesis
  proof (elim disjE exE conjE)
    assume "w' = w"
    with nd show ?thesis by simp
  next
    assume i: "i < length (threadArray w)"
      and w': "w' = w\<lparr>threadArray := (threadArray w)[i := Terminated],
                      trace := trace w @ [Lock, Unlock]\<rparr>"
    from held_after_update [OF i, of w' Terminated] w'
    have "set (held w') \<subseteq> set (held w)" by simp
    with w' nd show ?thesis by (auto simp: nodrain_inv_def)
  next
    fix b q
    assume "isShuttingDown w \<longrightarrow> shouldWaitForTasks w"
    with sd ndr show ?thesis by simp
  next
    fix b g and node :: task_node
    assume i: "i < length (threadArray w)" and e: "threadArray w ! i = Executing b"
      and w': "w' = w\<lparr>threadArray := (threadArray w)[i := Waiting],
                      heap := (heap w)[b := None],
                      trace := trace w @ [Run b g (parameters node), Free b]\<rparr>"
    from held_after_update [OF i, of w' Waiting] w'
    have "set (held w') \<subseteq> set (held w)" by simp
    moreover from thread_task_held [OF i e] have "b \<in> set (held w)" .
    ultimately show ?thesis using w' nd by (auto simp: nodrain_inv_def)
  qed
qed

lemma nodrain_run:
  assumes "nodrain_inv w" and "run acts w = Inr w'"
  shows "nodrain_inv w'
    \<and> set (executed (trace w')) \<union> set (held w') \<subseteq> set (executed (trace w)) \<union> set (held w)"
  using assms
proof (induction acts arbitrary: w)
  case Nil
  then show ?case by simp
next
  case (Cons a acts)
  from Cons.prems(2) obtain w1 where s: "step a w = Inr w1" and r: "run acts w1 = Inr w'"
    by (auto split: sum.splits)
  from nodrain_step [OF Cons.prems(1) s]
  have 1: "nodrain_inv w1"
    "set (executed (trace w1)) \<union> set (held w1) \<subseteq> set (executed (trace w)) \<union> set (held w)"
    by simp_all
  from Cons.IH [OF 1(1) r] 1(2) show ?case by blast
qed

text \<open>The definitions a concrete run unfolds.\<close>

lemmas run_defs = tpInsertTask_prepare_def tpInsertTask_enqueue_def tnCreate_def all_ok_def
  osEnqueue_def emit_def
  tpRoutine_step_def tpRoutine_critical_def tpRoutine_decide_def osIsQueueEmpty_def
  osDequeue_def tpRoutine_execute_def live_def free_node_def
  tpDestroy_guard_def tpDestroy_shutdown_def tpDestroy_step_def tpDestroy_join_def
  freeTasks_iteration_def tpFreeThreadPool_release_def
  tpCreate_def startThreads.simps osCreateQueue_def

subsection \<open>The claims about whole runs\<close>

text \<open>
  C8. In every run of a created pool the tasks leave the queue in the order they
  entered it: what has been dequeued, followed by what is still queued, is what has been
  enqueued; no node is enqueued twice; so the \<open>k\<close>-th task dequeued is the \<open>k\<close>-th task
  enqueued. A task whose submit has enqueued it by some moment stands in the enqueue
  order before every task enqueued after that moment, and whenever such a later task has
  been dequeued, the earlier one was dequeued before it.
\<close>

theorem fifo_order:
  assumes "tpCreate al junk n = Created w0"
    and "run acts1 w0 = Inr w1" and "run acts2 w1 = Inr w"
  shows "dequeued (trace w) @ taskQueue w = enqueued (trace w)
    \<and> distinct (enqueued (trace w))
    \<and> (\<forall>k<length (dequeued (trace w)). dequeued (trace w) ! k = enqueued (trace w) ! k)
    \<and> (\<exists>later. enqueued (trace w) = enqueued (trace w1) @ later)
    \<and> (\<forall>a b. a \<in> set (enqueued (trace w1)) \<and> b \<notin> set (enqueued (trace w1))
           \<and> b \<in> set (dequeued (trace w)) \<longrightarrow>
         (\<exists>xs ys zs. dequeued (trace w) = xs @ a # ys @ b # zs))"
proof -
  from tpCreate_inv [OF assms(1)] have "pool_inv w0" by simp
  from run_preserves_inv [OF this assms(2)] have "pool_inv w1" .
  from run_preserves_inv [OF this assms(3)] have inv: "pool_inv w" .
  then have eq: "dequeued (trace w) @ taskQueue w = enqueued (trace w)"
    by (simp add: pool_inv_def)
  from inv_allocated(1) [OF inv] have d: "distinct (enqueued (trace w))" by simp
  from eq have nth: "\<forall>k<length (dequeued (trace w)).
      dequeued (trace w) ! k = enqueued (trace w) ! k"
    by (metis nth_append)
  from run_trace_extends [OF assms(3)] obtain new where "trace w = trace w1 @ new" by blast
  then have ext: "enqueued (trace w) = enqueued (trace w1) @ enqueued new" by simp
  have ord: "\<exists>xs ys zs. dequeued (trace w) = xs @ a # ys @ b # zs"
    if a: "a \<in> set (enqueued (trace w1))" and nb: "b \<notin> set (enqueued (trace w1))"
      and b: "b \<in> set (dequeued (trace w))" for a b
  proof -
    from eq ext have "dequeued (trace w) @ taskQueue w = enqueued (trace w1) @ enqueued new"
      by simp
    then obtain us where
      "dequeued (trace w) = enqueued (trace w1) @ us \<and> us @ taskQueue w = enqueued new
       \<or> dequeued (trace w) @ us = enqueued (trace w1) \<and> taskQueue w = us @ enqueued new"
      by (auto simp: append_eq_append_conv2)
    then show ?thesis
    proof
      assume c: "dequeued (trace w) = enqueued (trace w1) @ us
        \<and> us @ taskQueue w = enqueued new"
      with b nb have "b \<in> set us" by auto
      then obtain ys2 zs where us: "us = ys2 @ b # zs" by (auto simp: in_set_conv_decomp)
      from a obtain xs ys1 where e1: "enqueued (trace w1) = xs @ a # ys1"
        by (auto simp: in_set_conv_decomp)
      from c us e1 have "dequeued (trace w) = xs @ a # (ys1 @ ys2) @ b # zs" by simp
      then show ?thesis by blast
    next
      assume "dequeued (trace w) @ us = enqueued (trace w1)
        \<and> taskQueue w = us @ enqueued new"
      then have "set (dequeued (trace w)) \<subseteq> set (enqueued (trace w1))"
        by (metis set_append Un_upper1)
      with b nb show ?thesis by blast
    qed
  qed
  from eq d nth ext ord show ?thesis by blast
qed

text \<open>
  Two workers; of two overlapping submits the second reaches the queue first, and its
  task is the first to be dequeued; a third task, submitted after both had returned, is
  dequeued after both.
\<close>

theorem fifo_order_witness:
  "tpCreate \<lparr>pool_ok = True, array_ok = True, mutex_ok = True, cond_ok = True,
             queue_ok = True, handle_ok = (\<lambda>i. True)\<rparr> False 2
   = Created \<lparr>taskQueue = [], isShuttingDown = False, shouldWaitForTasks = False,
        numOfThreads = 2, threadArray = [Waiting, Waiting], destroyers = [], inflight = [],
        heap = [],
        poolFreed = False,
        trace = [SetShutdown False, StartThread 0, StartThread 1]\<rparr>
   \<and> run [SubmitEnter (Some 7) 0 True, SubmitEnter (Some 8) 1 True, SubmitFinish 1,
           SubmitFinish 0]
       \<lparr>taskQueue = [], isShuttingDown = False, shouldWaitForTasks = False,
        numOfThreads = 2, threadArray = [Waiting, Waiting], destroyers = [], inflight = [],
        heap = [],
        poolFreed = False,
        trace = [SetShutdown False, StartThread 0, StartThread 1]\<rparr>
   = Inr \<lparr>taskQueue = [1, 0], isShuttingDown = False, shouldWaitForTasks = False,
        numOfThreads = 2, threadArray = [Waiting, Waiting], destroyers = [], inflight = [],
        heap = [Some \<lparr>computeFunc = Some 7, parameters = 0\<rparr>,
                Some \<lparr>computeFunc = Some 8, parameters = 1\<rparr>],
        poolFreed = False,
        trace = [SetShutdown False, StartThread 0, StartThread 1, Lock, Enq 1,
           Signal, Unlock, Lock, Enq 0, Signal, Unlock]\<rparr>
   \<and> run [SubmitEnter (Some 9) 2 True, SubmitFinish 2, Work 1, Work 0, Work 1, Work 1]
       \<lparr>taskQueue = [1, 0], isShuttingDown = False, shouldWaitForTasks = False,
        numOfThreads = 2, threadArray = [Waiting, Waiting], destroyers = [], inflight = [],
        heap = [Some \<lparr>computeFunc = Some 7, parameters = 0\<rparr>,
                Some \<lparr>computeFunc = Some 8, parameters = 1\<rparr>],
        poolFreed = False,
        trace = [SetShutdown False, StartThread 0, StartThread 1, Lock, Enq 1,
           Signal, Unlock, Lock, Enq 0, Signal, Unlock]\<rparr>
   = Inr \<lparr>taskQueue = [], isShuttingDown = False, shouldWaitForTasks = False,
        numOfThreads = 2, threadArray = [Executing 0, Executing 2], destroyers = [],
        inflight = [],
        heap = [Some \<lparr>computeFunc = Some 7, parameters = 0\<rparr>, None,
                Some \<lparr>computeFunc = Some 9, parameters = 2\<rparr>],
        poolFreed = False,
        trace = [SetShutdown False, StartThread 0, StartThread 1, Lock, Enq 1,
           Signal, Unlock, Lock, Enq 0, Signal, Unlock, Lock, Enq 2, Signal,
           Unlock, Lock, Deq 1, Unlock, Lock, Deq 0, Unlock, Run 1 8 1,
           Free 1, Lock, Deq 2, Unlock]\<rparr>
   \<and> enqueued [SetShutdown False, StartThread 0, StartThread 1, Lock, Enq 1,
           Signal, Unlock, Lock, Enq 0, Signal, Unlock, Lock, Enq 2, Signal,
           Unlock, Lock, Deq 1, Unlock, Lock, Deq 0, Unlock, Run 1 8 1,
           Free 1, Lock, Deq 2, Unlock] = [1, 0, 2]
   \<and> dequeued [SetShutdown False, StartThread 0, StartThread 1, Lock, Enq 1,
           Signal, Unlock, Lock, Enq 0, Signal, Unlock, Lock, Enq 2, Signal,
           Unlock, Lock, Deq 1, Unlock, Lock, Deq 0, Unlock, Run 1 8 1,
           Free 1, Lock, Deq 2, Unlock] = [1, 0, 2]"
  (is "?c \<and> ?r1 \<and> ?r2 \<and> ?concl")
proof -
  have c: ?c
    by (simp add: tpCreate_def startThreads.simps osCreateQueue_def numeral_2_eq_2 upt_rec)
  have r1: ?r1 by (simp add: run_defs)
  have r2: ?r2 by (simp add: run_defs)
  from fifo_order [OF c r1 r2] have ?concl by simp
  with c r1 r2 show ?thesis by blast
qed

text \<open>
  What holds of the shutdown fields in every run of a created pool, whatever the
  interleaving: \<^verbatim>\<open>isShuttingDown\<close> starts false and, once true, stays true; and the two
  fields are written by \<^verbatim>\<open>tpCreate\<close> and by critical sections of \<^verbatim>\<open>tpDestroy\<close> only, each
  section writing the drain flag and then \<^verbatim>\<open>isShuttingDown\<close>. How many sections run is
  not bounded by the guard of line 144.
\<close>

lemma shutdown_fields_in_every_run:
  assumes "tpCreate al junk n = Created w0"
    and "run acts1 w0 = Inr w1" and "run acts2 w1 = Inr w2"
  shows "\<not> isShuttingDown w0
    \<and> (isShuttingDown w1 \<longrightarrow> isShuttingDown w2)
    \<and> (\<exists>bs. flag_writes (trace w2) = SetShutdown False # shutdown_pairs bs
          \<and> isShuttingDown w2 = (bs \<noteq> [])
          \<and> (bs \<noteq> [] \<longrightarrow> shouldWaitForTasks w2 = last bs))"
proof -
  from tpCreate_inv [OF assms(1)] have 0: "\<not> isShuttingDown w0" by simp
  from flag_run [OF tpCreate_flag_inv [OF assms(1)] assms(2)] have 1: "flag_inv w1" by simp
  from flag_run [OF 1 assms(3)] have 2: "flag_inv w2" "isShuttingDown w1 \<longrightarrow> isShuttingDown w2"
    by simp_all
  from 2(1) obtain bs where "flag_writes (trace w2) = SetShutdown False # shutdown_pairs bs
          \<and> isShuttingDown w2 = (bs \<noteq> [])
          \<and> (bs \<noteq> [] \<longrightarrow> shouldWaitForTasks w2 = last bs)"
    unfolding flag_inv_def by blast
  then have "\<exists>bs. flag_writes (trace w2) = SetShutdown False # shutdown_pairs bs
          \<and> isShuttingDown w2 = (bs \<noteq> [])
          \<and> (bs \<noteq> [] \<longrightarrow> shouldWaitForTasks w2 = last bs)" by blast
  with 0 2(2) show ?thesis by blast
qed

text \<open>
  When at most one caller of \<^verbatim>\<open>tpDestroy\<close> has passed the guard, the shutdown fields are
  written once: not at all while the pool is not shutting down, and exactly once
  afterwards, the drain flag next to the write that set \<^verbatim>\<open>isShuttingDown\<close>.
\<close>

lemma shutdown_fields_single_caller:
  assumes "tpCreate al junk n = Created w0" and "run acts w0 = Inr w"
    and "length (destroyers w) \<le> 1"
  shows "flag_writes (trace w) =
        SetShutdown False #
          (if isShuttingDown w then [SetDrain (shouldWaitForTasks w), SetShutdown True] else [])"
proof -
  from flag_run [OF tpCreate_flag_inv [OF assms(1)] assms(2)] have "flag_inv w" by simp
  then obtain bs where bs: "flag_writes (trace w) = SetShutdown False # shutdown_pairs bs"
    "isShuttingDown w = (bs \<noteq> [])" "bs \<noteq> [] \<longrightarrow> shouldWaitForTasks w = last bs"
    "length bs = length (filter past_lock (destroyers w))"
    unfolding flag_inv_def by blast
  have "length bs \<le> 1"
    using bs(4) assms(3) length_filter_le [of past_lock "destroyers w"] by linarith
  then have "bs = [] \<or> (\<exists>b. bs = [b])"
    by (cases bs) auto
  with bs(1-3) show ?thesis by (auto simp: shutdown_pairs_def)
qed

text \<open>
  C7. The drain flag is not written once only. The guard of \<^verbatim>\<open>tpDestroy\<close> reads
  \<^verbatim>\<open>isShuttingDown\<close> before the mutex is taken, so two calls can both find it false. On a
  fresh pool of one worker, \<^verbatim>\<open>tpDestroy(pool, 0)\<close> and \<^verbatim>\<open>tpDestroy(pool, 1)\<close> both pass the
  guard, then each runs the critical section: \<^verbatim>\<open>shouldWaitForTasks\<close> is written twice,
  first false and then true, and \<^verbatim>\<open>isShuttingDown\<close> is set twice; both callers go on to
  the join loop.
\<close>

theorem tpDestroy_race_writes_drain_flag_twice:
  "tpCreate \<lparr>pool_ok = True, array_ok = True, mutex_ok = True, cond_ok = True,
             queue_ok = True, handle_ok = (\<lambda>i. True)\<rparr> False 1
   = Created \<lparr>taskQueue = [], isShuttingDown = False, shouldWaitForTasks = False,
        numOfThreads = 1, threadArray = [Waiting], destroyers = [], inflight = [],
        heap = [], poolFreed = False,
        trace = [SetShutdown False, StartThread 0]\<rparr>
   \<and> run [DestroyCall 0, DestroyCall 1, DestroyStep 0, DestroyStep 1]
       \<lparr>taskQueue = [], isShuttingDown = False, shouldWaitForTasks = False,
        numOfThreads = 1, threadArray = [Waiting], destroyers = [], inflight = [],
        heap = [], poolFreed = False,
        trace = [SetShutdown False, StartThread 0]\<rparr>
   = Inr \<lparr>taskQueue = [], isShuttingDown = True, shouldWaitForTasks = True,
        numOfThreads = 1, threadArray = [Waiting], destroyers = [AtJoin 0, AtJoin 0],
        inflight = [], heap = [], poolFreed = False,
        trace = [SetShutdown False, StartThread 0,
                 Lock, SetDrain False, SetShutdown True, Broadcast, Unlock,
                 Lock, SetDrain True, SetShutdown True, Broadcast, Unlock]\<rparr>
   \<and> flag_writes [SetShutdown False, StartThread 0,
                 Lock, SetDrain False, SetShutdown True, Broadcast, Unlock,
                 Lock, SetDrain True, SetShutdown True, Broadcast, Unlock]
     = [SetShutdown False, SetDrain False, SetShutdown True, SetDrain True, SetShutdown True]"
  by (simp add: run_defs)

text \<open>
  What holds of the tasks in every run of a created pool, whatever the interleaving: no
  node is enqueued, dequeued, executed or freed twice; the nodes executed are among the
  nodes freed, in the same order; a node is freed only after it was dequeued, and
  dequeued only after it was enqueued. No run ends in a double free of a node, a freed
  node being read, a dequeue from an empty queue or a \<^verbatim>\<open>NULL\<close> callable: the only
  failure a run can meet is a use of the pool after \<^verbatim>\<open>tpFreeThreadPool\<close> has released it.
\<close>

lemma tasks_in_every_run:
  assumes "tpCreate al junk n = Created w0" and "run acts w0 = Inr w"
  shows "distinct (enqueued (trace w)) \<and> distinct (dequeued (trace w))
    \<and> distinct (freed (trace w)) \<and> distinct (executed (trace w))
    \<and> subseq (executed (trace w)) (freed (trace w))
    \<and> set (freed (trace w)) \<subseteq> set (dequeued (trace w))
    \<and> set (dequeued (trace w)) \<subseteq> set (enqueued (trace w))
    \<and> (\<forall>acts' e. run acts' w0 = Inl e \<longrightarrow> e = UseAfterFree)"
proof -
  from tpCreate_inv [OF assms(1)] have inv0: "pool_inv w0" by simp
  from run_preserves_inv [OF inv0 assms(2)] have inv: "pool_inv w" .
  from inv_allocated(1) [OF inv] have de: "distinct (enqueued (trace w))" by simp
  from inv_distinct_deq [OF inv] have dd: "distinct (dequeued (trace w))" by simp
  from inv_distinct_freed [OF inv] have df: "distinct (freed (trace w))" by simp
  from inv have ss: "subseq (executed (trace w)) (freed (trace w))"
    by (simp add: pool_inv_def)
  from subseq_distinct [OF ss df] have dx: "distinct (executed (trace w))" .
  from inv_freed_held_dequeued [OF inv]
  have fd: "set (freed (trace w)) \<subseteq> set (dequeued (trace w))" by blast
  from inv have "dequeued (trace w) @ taskQueue w = enqueued (trace w)"
    by (simp add: pool_inv_def)
  then have dq: "set (dequeued (trace w)) \<subseteq> set (enqueued (trace w))"
    by (metis set_append Un_upper1)
  have er: "\<forall>acts' e. run acts' w0 = Inl e \<longrightarrow> e = UseAfterFree"
    using run_error [OF inv0] by blast
  from de dd df dx ss fd dq er show ?thesis by blast
qed

text \<open>
  Once the pool is released, every node that was enqueued has been freed exactly once or
  is still in the queue of the released pool.
\<close>

lemma released_pool_tasks:
  assumes "tpCreate al junk n = Created w0" and "run acts w0 = Inr w" and "poolFreed w"
  shows "mset (enqueued (trace w)) = mset (freed (trace w)) + mset (taskQueue w)"
proof -
  from tpCreate_inv [OF assms(1)] have inv0: "pool_inv w0" by simp
  from run_preserves_inv [OF inv0 assms(2)] have inv: "pool_inv w" .
  from join_run [OF tpCreate_join_inv [OF assms(1)] inv0 assms(2)] have "join_inv w" .
  from released_holds_nothing [OF this assms(3)] have "held w = []" .
  with inv have "mset (freed (trace w)) = mset (dequeued (trace w))"
    by (simp add: pool_inv_def)
  moreover from inv have "mset (dequeued (trace w) @ taskQueue w) = mset (enqueued (trace w))"
    by (simp add: pool_inv_def)
  ultimately show ?thesis by simp
qed

text \<open>
  When no submit races the teardown, nothing is left in that queue: if at some moment the
  pool is shutting down, no call of \<^verbatim>\<open>tpInsertTask\<close> is between its test of line 190 and
  its critical section, and no caller of \<^verbatim>\<open>tpDestroy\<close> has yet left the loop that empties
  the queue, then the released pool has an empty queue and every node that was enqueued
  has been freed, once.
\<close>

lemma tasks_when_no_submit_races:
  assumes "tpCreate al junk n = Created w0"
    and "run acts1 w0 = Inr w1" and "run acts2 w1 = Inr w"
    and "isShuttingDown w1" and "inflight w1 = []"
    and "\<forall>s\<in>set (destroyers w1). \<not> past_loop s"
    and "poolFreed w"
  shows "taskQueue w = [] \<and> mset (freed (trace w)) = mset (enqueued (trace w))"
proof -
  from tpCreate_inv [OF assms(1)] have inv0: "pool_inv w0" by simp
  from run_preserves_inv [OF inv0 assms(2)] have inv1: "pool_inv w1" .
  from join_run [OF tpCreate_join_inv [OF assms(1)] inv0 assms(2)] have "join_inv w1" .
  from join_run [OF this inv1 assms(3)] have "join_inv w" .
  with assms(7) have g: "Gone \<in> set (destroyers w)" by (simp add: join_inv_def)
  from assms(4-6) have "quiet_inv w1" by (simp add: quiet_inv_def)
  from quiet_run [OF this assms(3)] have "quiet_inv w" .
  moreover from g have "\<exists>s\<in>set (destroyers w). past_loop s" by force
  ultimately have q: "taskQueue w = []" by (simp add: quiet_inv_def)
  from assms(2,3) have "run (acts1 @ acts2) w0 = Inr w"
  proof (induction acts1 arbitrary: w0)
    case Nil
    then show ?case by simp
  next
    case (Cons a acts1)
    then show ?case by (auto split: sum.splits)
  qed
  from released_pool_tasks [OF assms(1) this assms(7)] q show ?thesis by simp
qed

text \<open>
  When no second call of \<^verbatim>\<open>tpDestroy\<close> is waiting behind the guard, a shutdown without
  drain stays one: from any moment at which the pool is shutting down without drain and
  no caller of \<^verbatim>\<open>tpDestroy\<close> is between the guard and its critical section, the tasks
  then in the queue are never executed.
\<close>

lemma no_drain_when_no_destroy_races:
  assumes "tpCreate al junk n = Created w0"
    and "run acts1 w0 = Inr w1" and "run acts2 w1 = Inr w"
    and "isShuttingDown w1" and "\<not> shouldWaitForTasks w1"
    and "\<forall>s\<in>set (destroyers w1). past_lock s"
  shows "set (taskQueue w1) \<inter> set (executed (trace w)) = {}"
proof -
  from tpCreate_inv [OF assms(1)] have inv0: "pool_inv w0" by simp
  from run_preserves_inv [OF inv0 assms(2)] have inv1: "pool_inv w1" .
  from assms(4-6) have "nodrain_inv w1" by (simp add: nodrain_inv_def)
  from nodrain_run [OF this assms(3)]
  have sub: "set (executed (trace w)) \<subseteq> set (executed (trace w1)) \<union> set (held w1)" by simp
  from inv1 have "subseq (executed (trace w1)) (freed (trace w1))"
    by (simp add: pool_inv_def)
  then have "set (executed (trace w1)) \<subseteq> set (freed (trace w1))"
    by (auto dest: list_emb_set)
  with sub inv_freed_held_dequeued [OF inv1]
  have "set (executed (trace w)) \<subseteq> set (dequeued (trace w1))" by blast
  moreover from inv_distinct_deq [OF inv1]
  have "set (dequeued (trace w1)) \<inter> set (taskQueue w1) = {}" by simp
  ultimately show ?thesis by blast
qed

text \<open>
  A shutdown in which no calls race. One worker; a first task is taken by the worker and
  a second is queued when \<^verbatim>\<open>tpDestroy(pool, 0)\<close> runs its critical section. The first
  task runs to its end and the worker leaves; a second call of \<^verbatim>\<open>tpDestroy\<close> returns at
  the guard; the first joins the worker, frees the queued task and releases the pool.
  The queued task is never executed, every task enqueued is freed once, and the
  shutdown fields are written once.
\<close>

lemma shutdown_without_races_example:
  "tpCreate \<lparr>pool_ok = True, array_ok = True, mutex_ok = True, cond_ok = True,
             queue_ok = True, handle_ok = (\<lambda>i. True)\<rparr> False 1
   = Created \<lparr>taskQueue = [], isShuttingDown = False, shouldWaitForTasks = False,
        numOfThreads = 1, threadArray = [Waiting], destroyers = [], inflight = [],
        heap = [], poolFreed = False,
        trace = [SetShutdown False, StartThread 0]\<rparr>
   \<and> run [SubmitEnter (Some 7) 0 True, SubmitFinish 0, Work 0, SubmitEnter (Some 7) 1 True,
           SubmitFinish 1, DestroyCall 0, DestroyStep 0]
       \<lparr>taskQueue = [], isShuttingDown = False, shouldWaitForTasks = False,
        numOfThreads = 1, threadArray = [Waiting], destroyers = [], inflight = [],
        heap = [], poolFreed = False,
        trace = [SetShutdown False, StartThread 0]\<rparr>
   = Inr \<lparr>taskQueue = [1], isShuttingDown = True, shouldWaitForTasks = False,
        numOfThreads = 1, threadArray = [Executing 0], destroyers = [AtJoin 0],
        inflight = [],
        heap = [Some \<lparr>computeFunc = Some 7, parameters = 0\<rparr>,
                Some \<lparr>computeFunc = Some 7, parameters = 1\<rparr>],
        poolFreed = False,
        trace = [SetShutdown False, StartThread 0, Lock, Enq 0, Signal, Unlock,
                 Lock, Deq 0, Unlock, Lock, Enq 1, Signal, Unlock,
                 Lock, SetDrain False, SetShutdown True, Broadcast, Unlock]\<rparr>
   \<and> run [Work 0, Work 0, DestroyCall 1, DestroyStep 0, DestroyStep 0, DestroyStep 0,
           DestroyStep 0, DestroyStep 0]
       \<lparr>taskQueue = [1], isShuttingDown = True, shouldWaitForTasks = False,
        numOfThreads = 1, threadArray = [Executing 0], destroyers = [AtJoin 0],
        inflight = [],
        heap = [Some \<lparr>computeFunc = Some 7, parameters = 0\<rparr>,
                Some \<lparr>computeFunc = Some 7, parameters = 1\<rparr>],
        poolFreed = False,
        trace = [SetShutdown False, StartThread 0, Lock, Enq 0, Signal, Unlock,
                 Lock, Deq 0, Unlock, Lock, Enq 1, Signal, Unlock,
                 Lock, SetDrain False, SetShutdown True, Broadcast, Unlock]\<rparr>
   = Inr \<lparr>taskQueue = [], isShuttingDown = True, shouldWaitForTasks = False,
        numOfThreads = 1, threadArray = [Terminated], destroyers = [Gone],
        inflight = [], heap = [None, None], poolFreed = True,
        trace = [SetShutdown False, StartThread 0, Lock, Enq 0, Signal, Unlock,
                 Lock, Deq 0, Unlock, Lock, Enq 1, Signal, Unlock,
                 Lock, SetDrain False, SetShutdown True, Broadcast, Unlock,
                 Run 0 7 0, Free 0, Lock, Unlock, JoinThread 0, Deq 1, Free 1,
                 DestroyQueue, FreeCond, FreeMutex, FreeHandle 0, FreeArray, FreePool]\<rparr>
   \<and> set [1] \<inter> set (executed
                [SetShutdown False, StartThread 0, Lock, Enq 0, Signal, Unlock,
                 Lock, Deq 0, Unlock, Lock, Enq 1, Signal, Unlock,
                 Lock, SetDrain False, SetShutdown True, Broadcast, Unlock,
                 Run 0 7 0, Free 0, Lock, Unlock, JoinThread 0, Deq 1, Free 1,
                 DestroyQueue, FreeCond, FreeMutex, FreeHandle 0, FreeArray, FreePool]) = {}
   \<and> mset (freed
                [SetShutdown False, StartThread 0, Lock, Enq 0, Signal, Unlock,
                 Lock, Deq 0, Unlock, Lock, Enq 1, Signal, Unlock,
                 Lock, SetDrain False, SetShutdown True, Broadcast, Unlock,
                 Run 0 7 0, Free 0, Lock, Unlock, JoinThread 0, Deq 1, Free 1,
                 DestroyQueue, FreeCond, FreeMutex, FreeHandle 0, FreeArray, FreePool])
     = mset (enqueued
                [SetShutdown False, StartThread 0, Lock, Enq 0, Signal, Unlock,
                 Lock, Deq 0, Unlock, Lock, Enq 1, Signal, Unlock,
                 Lock, SetDrain False, SetShutdown True, Broadcast, Unlock,
                 Run 0 7 0, Free 0, Lock, Unlock, JoinThread 0, Deq 1, Free 1,
                 DestroyQueue, FreeCond, FreeMutex, FreeHandle 0, FreeArray, FreePool])
   \<and> flag_writes
                [SetShutdown False, StartThread 0, Lock, Enq 0, Signal, Unlock,
                 Lock, Deq 0, Unlock, Lock, Enq 1, Signal, Unlock,
                 Lock, SetDrain False, SetShutdown True, Broadcast, Unlock,
                 Run 0 7 0, Free 0, Lock, Unlock, JoinThread 0, Deq 1, Free 1,
                 DestroyQueue, FreeCond, FreeMutex, FreeHandle 0, FreeArray, FreePool]
     = [SetShutdown False, SetDrain False, SetShutdown True]"
  (is "?c \<and> ?r1 \<and> ?r2 \<and> ?x \<and> ?f \<and> ?s")
proof -
  have c: ?c by (simp add: run_defs)
  have r1: ?r1 by (simp add: run_defs)
  have r2: ?r2 by (simp add: run_defs)
  have r: "run ([SubmitEnter (Some 7) 0 True, SubmitFinish 0, Work 0, SubmitEnter (Some 7) 1 True,
           SubmitFinish 1, DestroyCall 0, DestroyStep 0]
         @ [Work 0, Work 0, DestroyCall 1, DestroyStep 0, DestroyStep 0, DestroyStep 0,
           DestroyStep 0, DestroyStep 0])
       \<lparr>taskQueue = [], isShuttingDown = False, shouldWaitForTasks = False,
        numOfThreads = 1, threadArray = [Waiting], destroyers = [], inflight = [],
        heap = [], poolFreed = False,
        trace = [SetShutdown False, StartThread 0]\<rparr>
   = Inr \<lparr>taskQueue = [], isShuttingDown = True, shouldWaitForTasks = False,
        numOfThreads = 1, threadArray = [Terminated], destroyers = [Gone],
        inflight = [], heap = [None, None], poolFreed = True,
        trace = [SetShutdown False, StartThread 0, Lock, Enq 0, Signal, Unlock,
                 Lock, Deq 0, Unlock, Lock, Enq 1, Signal, Unlock,
                 Lock, SetDrain False, SetShutdown True, Broadcast, Unlock,
                 Run 0 7 0, Free 0, Lock, Unlock, JoinThread 0, Deq 1, Free 1,
                 DestroyQueue, FreeCond, FreeMutex, FreeHandle 0, FreeArray, FreePool]\<rparr>"
    by (simp add: run_defs)
  from no_drain_when_no_destroy_races [OF c r1 r2] have x: ?x by simp
  from tasks_when_no_submit_races [OF c r1 r2] have f: ?f by simp
  from shutdown_fields_single_caller [OF c r] have s: ?s by simp
  from c r1 r2 x f s show ?thesis by blast
qed

text \<open>
  C1. A task can be enqueued and then neither executed nor freed. \<^verbatim>\<open>tpInsertTask\<close>
  tests \<^verbatim>\<open>isShuttingDown\<close> before it takes the mutex (line 190), and \<^verbatim>\<open>tpFreeThreadPool\<close>
  empties the queue without the mutex. On a fresh pool of one worker a submit passes the
  test and allocates node 0; \<^verbatim>\<open>tpDestroy(pool, 1)\<close> then runs its critical section, the
  worker finds the queue empty and leaves, the caller joins it and finds the queue empty
  at line 258; now the submit enqueues node 0 and returns success; the caller of
  \<^verbatim>\<open>tpDestroy\<close> releases the pool. Node 0 was enqueued; it is still allocated and in the
  queue of the freed pool, and it was never executed and never freed.
\<close>

theorem tpInsertTask_race_abandons_task:
  "tpCreate \<lparr>pool_ok = True, array_ok = True, mutex_ok = True, cond_ok = True,
             queue_ok = True, handle_ok = (\<lambda>i. True)\<rparr> False 1
   = Created \<lparr>taskQueue = [], isShuttingDown = False, shouldWaitForTasks = False,
        numOfThreads = 1, threadArray = [Waiting], destroyers = [], inflight = [],
        heap = [], poolFreed = False,
        trace = [SetShutdown False, StartThread 0]\<rparr>
   \<and> run [SubmitEnter (Some 7) 0 True, DestroyCall 1, DestroyStep 0, Work 0,
           DestroyStep 0, DestroyStep 0, DestroyStep 0, SubmitFinish 0, DestroyStep 0]
       \<lparr>taskQueue = [], isShuttingDown = False, shouldWaitForTasks = False,
        numOfThreads = 1, threadArray = [Waiting], destroyers = [], inflight = [],
        heap = [], poolFreed = False,
        trace = [SetShutdown False, StartThread 0]\<rparr>
   = Inr \<lparr>taskQueue = [0], isShuttingDown = True, shouldWaitForTasks = True,
        numOfThreads = 1, threadArray = [Terminated], destroyers = [Gone],
        inflight = [], heap = [Some \<lparr>computeFunc = Some 7, parameters = 0\<rparr>],
        poolFreed = True,
        trace = [SetShutdown False, StartThread 0,
                 Lock, SetDrain True, SetShutdown True, Broadcast, Unlock,
                 Lock, Unlock, JoinThread 0,
                 Lock, Enq 0, Signal, Unlock,
                 DestroyQueue, FreeCond, FreeMutex, FreeHandle 0, FreeArray, FreePool]\<rparr>
   \<and> enqueued [SetShutdown False, StartThread 0,
                 Lock, SetDrain True, SetShutdown True, Broadcast, Unlock,
                 Lock, Unlock, JoinThread 0,
                 Lock, Enq 0, Signal, Unlock,
                 DestroyQueue, FreeCond, FreeMutex, FreeHandle 0, FreeArray, FreePool] = [0]
   \<and> executed [SetShutdown False, StartThread 0,
                 Lock, SetDrain True, SetShutdown True, Broadcast, Unlock,
                 Lock, Unlock, JoinThread 0,
                 Lock, Enq 0, Signal, Unlock,
                 DestroyQueue, FreeCond, FreeMutex, FreeHandle 0, FreeArray, FreePool] = []
   \<and> freed [SetShutdown False, StartThread 0,
                 Lock, SetDrain True, SetShutdown True, Broadcast, Unlock,
                 Lock, Unlock, JoinThread 0,
                 Lock, Enq 0, Signal, Unlock,
                 DestroyQueue, FreeCond, FreeMutex, FreeHandle 0, FreeArray, FreePool] = []"
  by (simp add: run_defs)

text \<open>
  When that submit reaches its critical section one step later, after the pool was
  released, it locks a mutex that was destroyed and freed.
\<close>

lemma tpInsertTask_race_uses_freed_pool:
  "run [SubmitEnter (Some 7) 0 True, DestroyCall 1, DestroyStep 0, Work 0,
        DestroyStep 0, DestroyStep 0, DestroyStep 0, DestroyStep 0, SubmitFinish 0]
       \<lparr>taskQueue = [], isShuttingDown = False, shouldWaitForTasks = False,
        numOfThreads = 1, threadArray = [Waiting], destroyers = [], inflight = [],
        heap = [], poolFreed = False,
        trace = [SetShutdown False, StartThread 0]\<rparr>
   = Inl UseAfterFree"
  by (simp add: run_defs)

text \<open>
  Two \<^verbatim>\<open>tpDestroy\<close> calls that both pass the guard also undo a shutdown without drain.
  A task is queued; \<^verbatim>\<open>tpDestroy(pool, 0)\<close> and \<^verbatim>\<open>tpDestroy(pool, 1)\<close> both pass the
  guard; the first runs its critical section, and the pool is shutting down without drain
  with node 0 queued and not started. Then the second runs its critical section and sets
  the drain flag, and the worker takes node 0 and executes it.
\<close>

lemma tpDestroy_race_executes_abandoned_task:
  "run [SubmitEnter (Some 7) 0 True, SubmitFinish 0, DestroyCall 0, DestroyCall 1,
        DestroyStep 0]
       \<lparr>taskQueue = [], isShuttingDown = False, shouldWaitForTasks = False,
        numOfThreads = 1, threadArray = [Waiting], destroyers = [], inflight = [],
        heap = [], poolFreed = False,
        trace = [SetShutdown False, StartThread 0]\<rparr>
   = Inr \<lparr>taskQueue = [0], isShuttingDown = True, shouldWaitForTasks = False,
        numOfThreads = 1, threadArray = [Waiting], destroyers = [AtJoin 0, AtLock 1],
        inflight = [], heap = [Some \<lparr>computeFunc = Some 7, parameters = 0\<rparr>],
        poolFreed = False,
        trace = [SetShutdown False, StartThread 0, Lock, Enq 0, Signal, Unlock,
                 Lock, SetDrain False, SetShutdown True, Broadcast, Unlock]\<rparr>
   \<and> run [DestroyStep 1, Work 0, Work 0]
       \<lparr>taskQueue = [0], isShuttingDown = True, shouldWaitForTasks = False,
        numOfThreads = 1, threadArray = [Waiting], destroyers = [AtJoin 0, AtLock 1],
        inflight = [], heap = [Some \<lparr>computeFunc = Some 7, parameters = 0\<rparr>],
        poolFreed = False,
        trace = [SetShutdown False, StartThread 0, Lock, Enq 0, Signal, Unlock,
                 Lock, SetDrain False, SetShutdown True, Broadcast, Unlock]\<rparr>
   = Inr \<lparr>taskQueue = [], isShuttingDown = True, shouldWaitForTasks = True,
        numOfThreads = 1, threadArray = [Waiting], destroyers = [AtJoin 0, AtJoin 0],
        inflight = [], heap = [None], poolFreed = False,
        trace = [SetShutdown False, StartThread 0, Lock, Enq 0, Signal, Unlock,
                 Lock, SetDrain False, SetShutdown True, Broadcast, Unlock,
                 Lock, SetDrain True, SetShutdown True, Broadcast, Unlock,
                 Lock, Deq 0, Unlock, Run 0 7 0, Free 0]\<rparr>"
  by (simp add: run_defs)

end
